theory Spec2Isabelle
  imports Main "HOL-Library.Monad_Syntax" "HOL-Library.Signed_Division"
begin

section \<open>The Sierpinski demo: line rasterizer and recursive triangle generator\<close>

text \<open>
  The embedding follows \<^verbatim>\<open>sierpinski.c\<close>. A C \<^verbatim>\<open>int\<close> has 32 bits on the target the
  file names (gcc on Linux). Signed overflow is undefined behaviour in C: an execution
  that runs into it has no result, and the model gives it \<open>None\<close>, as it does to a call
  that does not return. Every addition and subtraction of the source is therefore
  checked against the range of \<^verbatim>\<open>int\<close>. C's \<^verbatim>\<open>/\<close> truncates towards zero; it is
  \<open>sdiv\<close>, not HOL's flooring \<open>div\<close>.

  The curses screen is external. What the program does to it is the sequence of
  \<^verbatim>\<open>mvaddch\<close> calls it performs; the trace also records each entry into
  \<^verbatim>\<open>draw_line\<close>, so that drawn edges can be counted.
\<close>

datatype 'ch event =
    Draw_line int int int int 'ch   \<comment> \<open>a call \<^verbatim>\<open>draw_line(x0, y0, x1, y1, ch)\<close>\<close>
  | Mvaddch int int 'ch             \<comment> \<open>a call \<^verbatim>\<open>mvaddch(y, x, ch)\<close>\<close>

type_synonym 'ch trace = "'ch event list"

definition mvaddch :: "int \<Rightarrow> int \<Rightarrow> 'ch \<Rightarrow> 'ch trace \<Rightarrow> 'ch trace" where
  "mvaddch y x ch s = s @ [Mvaddch y x ch]"

subsection \<open>Arithmetic on \<^verbatim>\<open>int\<close>\<close>

definition INT_MAX :: int where
  "INT_MAX = 2147483647"

definition INT_MIN :: int where
  "INT_MIN = - 2147483648"

text \<open>\<^verbatim>\<open>a + b\<close> and \<^verbatim>\<open>a - b\<close>: no result when the sum or difference leaves the range.\<close>

definition int_add :: "int \<Rightarrow> int \<Rightarrow> int option" where
  "int_add a b = (if INT_MIN \<le> a + b \<and> a + b \<le> INT_MAX then Some (a + b) else None)"

definition int_sub :: "int \<Rightarrow> int \<Rightarrow> int option" where
  "int_sub a b = (if INT_MIN \<le> a - b \<and> a - b \<le> INT_MAX then Some (a - b) else None)"

subsection \<open>The eight loops of \<^verbatim>\<open>draw_line\<close>\<close>

text \<open>
  Each loop is named after the variable the \<^verbatim>\<open>for\<close> statement steps and the one
  stepped when \<^verbatim>\<open>dec <= 0\<close>. The loop bound and the two deltas are constant in a loop;
  \<open>x0\<close>, \<open>y0\<close>, \<open>dec\<close> and the trace are its state. The step of the \<^verbatim>\<open>for\<close> statement
  comes last in an iteration, so a loop whose bound is \<open>INT_MAX\<close> (or \<open>INT_MIN\<close>, when it
  counts down) overflows after its last plot.
\<close>

function loop_xinc_yinc ::
  "int \<Rightarrow> int \<Rightarrow> int \<Rightarrow> 'ch \<Rightarrow> int \<Rightarrow> int \<Rightarrow> int \<Rightarrow> 'ch trace \<Rightarrow> 'ch trace option" where
  "loop_xinc_yinc x1 dx dy ch x0 y0 dec s =
     (if x0 \<le> x1 then do {
        (dec, y0) \<leftarrow> (if dec \<le> 0 then do {
                         dec \<leftarrow> int_add dec dx;
                         y0 \<leftarrow> int_add y0 1;
                         Some (dec, y0)
                       } else Some (dec, y0));
        let s = mvaddch y0 x0 ch s;
        dec \<leftarrow> int_sub dec dy;
        x0 \<leftarrow> int_add x0 1;
        loop_xinc_yinc x1 dx dy ch x0 y0 dec s
      } else Some s)"
  by pat_completeness auto
termination
  by (relation "measure (\<lambda>(x1, dx, dy, ch, x0, y0, dec, s). nat (x1 + 1 - x0))")
     (auto simp: int_add_def int_sub_def split: if_splits)

function loop_yinc_xinc ::
  "int \<Rightarrow> int \<Rightarrow> int \<Rightarrow> 'ch \<Rightarrow> int \<Rightarrow> int \<Rightarrow> int \<Rightarrow> 'ch trace \<Rightarrow> 'ch trace option" where
  "loop_yinc_xinc y1 dx dy ch x0 y0 dec s =
     (if y0 \<le> y1 then do {
        (dec, x0) \<leftarrow> (if dec \<le> 0 then do {
                         dec \<leftarrow> int_add dec dy;
                         x0 \<leftarrow> int_add x0 1;
                         Some (dec, x0)
                       } else Some (dec, x0));
        let s = mvaddch y0 x0 ch s;
        dec \<leftarrow> int_sub dec dx;
        y0 \<leftarrow> int_add y0 1;
        loop_yinc_xinc y1 dx dy ch x0 y0 dec s
      } else Some s)"
  by pat_completeness auto
termination
  by (relation "measure (\<lambda>(y1, dx, dy, ch, x0, y0, dec, s). nat (y1 + 1 - y0))")
     (auto simp: int_add_def int_sub_def split: if_splits)

function loop_xinc_ydec ::
  "int \<Rightarrow> int \<Rightarrow> int \<Rightarrow> 'ch \<Rightarrow> int \<Rightarrow> int \<Rightarrow> int \<Rightarrow> 'ch trace \<Rightarrow> 'ch trace option" where
  "loop_xinc_ydec x1 dx dy ch x0 y0 dec s =
     (if x0 \<le> x1 then do {
        (dec, y0) \<leftarrow> (if dec \<le> 0 then do {
                         dec \<leftarrow> int_add dec dx;
                         y0 \<leftarrow> int_sub y0 1;
                         Some (dec, y0)
                       } else Some (dec, y0));
        let s = mvaddch y0 x0 ch s;
        dec \<leftarrow> int_sub dec dy;
        x0 \<leftarrow> int_add x0 1;
        loop_xinc_ydec x1 dx dy ch x0 y0 dec s
      } else Some s)"
  by pat_completeness auto
termination
  by (relation "measure (\<lambda>(x1, dx, dy, ch, x0, y0, dec, s). nat (x1 + 1 - x0))")
     (auto simp: int_add_def int_sub_def split: if_splits)

function loop_ydec_xinc ::
  "int \<Rightarrow> int \<Rightarrow> int \<Rightarrow> 'ch \<Rightarrow> int \<Rightarrow> int \<Rightarrow> int \<Rightarrow> 'ch trace \<Rightarrow> 'ch trace option" where
  "loop_ydec_xinc y1 dx dy ch x0 y0 dec s =
     (if y0 \<ge> y1 then do {
        (dec, x0) \<leftarrow> (if dec \<le> 0 then do {
                         dec \<leftarrow> int_add dec dy;
                         x0 \<leftarrow> int_add x0 1;
                         Some (dec, x0)
                       } else Some (dec, x0));
        let s = mvaddch y0 x0 ch s;
        dec \<leftarrow> int_sub dec dx;
        y0 \<leftarrow> int_sub y0 1;
        loop_ydec_xinc y1 dx dy ch x0 y0 dec s
      } else Some s)"
  by pat_completeness auto
termination
  by (relation "measure (\<lambda>(y1, dx, dy, ch, x0, y0, dec, s). nat (y0 + 1 - y1))")
     (auto simp: int_add_def int_sub_def split: if_splits)

function loop_xdec_yinc ::
  "int \<Rightarrow> int \<Rightarrow> int \<Rightarrow> 'ch \<Rightarrow> int \<Rightarrow> int \<Rightarrow> int \<Rightarrow> 'ch trace \<Rightarrow> 'ch trace option" where
  "loop_xdec_yinc x1 dx dy ch x0 y0 dec s =
     (if x0 \<ge> x1 then do {
        (dec, y0) \<leftarrow> (if dec \<le> 0 then do {
                         dec \<leftarrow> int_add dec dx;
                         y0 \<leftarrow> int_add y0 1;
                         Some (dec, y0)
                       } else Some (dec, y0));
        let s = mvaddch y0 x0 ch s;
        dec \<leftarrow> int_sub dec dy;
        x0 \<leftarrow> int_sub x0 1;
        loop_xdec_yinc x1 dx dy ch x0 y0 dec s
      } else Some s)"
  by pat_completeness auto
termination
  by (relation "measure (\<lambda>(x1, dx, dy, ch, x0, y0, dec, s). nat (x0 + 1 - x1))")
     (auto simp: int_add_def int_sub_def split: if_splits)

function loop_yinc_xdec ::
  "int \<Rightarrow> int \<Rightarrow> int \<Rightarrow> 'ch \<Rightarrow> int \<Rightarrow> int \<Rightarrow> int \<Rightarrow> 'ch trace \<Rightarrow> 'ch trace option" where
  "loop_yinc_xdec y1 dx dy ch x0 y0 dec s =
     (if y0 \<le> y1 then do {
        (dec, x0) \<leftarrow> (if dec \<le> 0 then do {
                         dec \<leftarrow> int_add dec dy;
                         x0 \<leftarrow> int_sub x0 1;
                         Some (dec, x0)
                       } else Some (dec, x0));
        let s = mvaddch y0 x0 ch s;
        dec \<leftarrow> int_sub dec dx;
        y0 \<leftarrow> int_add y0 1;
        loop_yinc_xdec y1 dx dy ch x0 y0 dec s
      } else Some s)"
  by pat_completeness auto
termination
  by (relation "measure (\<lambda>(y1, dx, dy, ch, x0, y0, dec, s). nat (y1 + 1 - y0))")
     (auto simp: int_add_def int_sub_def split: if_splits)

function loop_xdec_ydec ::
  "int \<Rightarrow> int \<Rightarrow> int \<Rightarrow> 'ch \<Rightarrow> int \<Rightarrow> int \<Rightarrow> int \<Rightarrow> 'ch trace \<Rightarrow> 'ch trace option" where
  "loop_xdec_ydec x1 dx dy ch x0 y0 dec s =
     (if x0 \<ge> x1 then do {
        (dec, y0) \<leftarrow> (if dec \<le> 0 then do {
                         dec \<leftarrow> int_add dec dx;
                         y0 \<leftarrow> int_sub y0 1;
                         Some (dec, y0)
                       } else Some (dec, y0));
        let s = mvaddch y0 x0 ch s;
        dec \<leftarrow> int_sub dec dy;
        x0 \<leftarrow> int_sub x0 1;
        loop_xdec_ydec x1 dx dy ch x0 y0 dec s
      } else Some s)"
  by pat_completeness auto
termination
  by (relation "measure (\<lambda>(x1, dx, dy, ch, x0, y0, dec, s). nat (x0 + 1 - x1))")
     (auto simp: int_add_def int_sub_def split: if_splits)

function loop_ydec_xdec ::
  "int \<Rightarrow> int \<Rightarrow> int \<Rightarrow> 'ch \<Rightarrow> int \<Rightarrow> int \<Rightarrow> int \<Rightarrow> 'ch trace \<Rightarrow> 'ch trace option" where
  "loop_ydec_xdec y1 dx dy ch x0 y0 dec s =
     (if y0 \<ge> y1 then do {
        (dec, x0) \<leftarrow> (if dec \<le> 0 then do {
                         dec \<leftarrow> int_add dec dy;
                         x0 \<leftarrow> int_sub x0 1;
                         Some (dec, x0)
                       } else Some (dec, x0));
        let s = mvaddch y0 x0 ch s;
        dec \<leftarrow> int_sub dec dx;
        y0 \<leftarrow> int_sub y0 1;
        loop_ydec_xdec y1 dx dy ch x0 y0 dec s
      } else Some s)"
  by pat_completeness auto
termination
  by (relation "measure (\<lambda>(y1, dx, dy, ch, x0, y0, dec, s). nat (y0 + 1 - y1))")
     (auto simp: int_add_def int_sub_def split: if_splits)

declare loop_xinc_yinc.simps [simp del] loop_yinc_xinc.simps [simp del]
  loop_xinc_ydec.simps [simp del] loop_ydec_xinc.simps [simp del]
  loop_xdec_yinc.simps [simp del] loop_yinc_xdec.simps [simp del]
  loop_xdec_ydec.simps [simp del] loop_ydec_xdec.simps [simp del]

subsection \<open>\<^verbatim>\<open>draw_line\<close>\<close>

definition draw_line ::
  "int \<Rightarrow> int \<Rightarrow> int \<Rightarrow> int \<Rightarrow> 'ch \<Rightarrow> 'ch trace \<Rightarrow> 'ch trace option" where
  "draw_line x0 y0 x1 y1 ch s0 =
     (let s = s0 @ [Draw_line x0 y0 x1 y1 ch] in
      if x1 \<ge> x0 then do {
        dx \<leftarrow> int_sub x1 x0;
        if y1 \<ge> y0 then do {
          dy \<leftarrow> int_sub y1 y0;
          if dx \<ge> dy then (let dec = dx in loop_xinc_yinc x1 dx dy ch x0 y0 dec s)
          else (let dec = dy in loop_yinc_xinc y1 dx dy ch x0 y0 dec s)
        } else do {
          dy \<leftarrow> int_sub y0 y1;
          if dx \<ge> dy then (let dec = dx in loop_xinc_ydec x1 dx dy ch x0 y0 dec s)
          else (let dec = dy in loop_ydec_xinc y1 dx dy ch x0 y0 dec s)
        }
      } else do {
        dx \<leftarrow> int_sub x0 x1;
        if y1 \<ge> y0 then do {
          dy \<leftarrow> int_sub y1 y0;
          if dx \<ge> dy then (let dec = dx in loop_xdec_yinc x1 dx dy ch x0 y0 dec s)
          else (let dec = dy in loop_yinc_xdec y1 dx dy ch x0 y0 dec s)
        } else do {
          dy \<leftarrow> int_sub y0 y1;
          if dx \<ge> dy then (let dec = dx in loop_xdec_ydec x1 dx dy ch x0 y0 dec s)
          else (let dec = dy in loop_ydec_xdec y1 dx dy ch x0 y0 dec s)
        }
      })"

subsection \<open>\<^verbatim>\<open>draw_sierpinski\<close>\<close>

text \<open>The C expression \<^verbatim>\<open>b + (a - b) / 2\<close>, which the source writes out for each midpoint.\<close>

definition half_way :: "int \<Rightarrow> int \<Rightarrow> int option" where
  "half_way b a = do { d \<leftarrow> int_sub a b; int_add b (d sdiv 2) }"

text \<open>
  The recursion stops only at \<^verbatim>\<open>depth == 0\<close>, so the function is partial: \<open>None\<close>
  is a call that does not return (or overflows). Each call evaluates its own arguments,
  as in the source. \<open>ACS_DIAMOND\<close> is a curses glyph whose value the program does not
  fix; it is a parameter.
\<close>

partial_function (option) draw_sierpinski ::
  "'ch \<Rightarrow> int \<Rightarrow> int \<Rightarrow> int \<Rightarrow> int \<Rightarrow> int \<Rightarrow> int \<Rightarrow> int \<Rightarrow> 'ch trace \<Rightarrow> 'ch trace option" where
  "draw_sierpinski ACS_DIAMOND ax ay bx by' cx cy depth s =
     (if depth = 0 then Some s
      else do {
        x \<leftarrow> half_way bx ax; y \<leftarrow> half_way ay by'; d \<leftarrow> int_sub depth 1;
        s \<leftarrow> draw_sierpinski ACS_DIAMOND x y bx by' ax by' d s;
        x \<leftarrow> half_way ax cx; y \<leftarrow> half_way ay cy; d \<leftarrow> int_sub depth 1;
        s \<leftarrow> draw_sierpinski ACS_DIAMOND x y ax by' cx cy d s;
        x1 \<leftarrow> half_way bx ax; y1 \<leftarrow> half_way ay by';
        x2 \<leftarrow> half_way ax cx; y2 \<leftarrow> half_way ay cy; d \<leftarrow> int_sub depth 1;
        s \<leftarrow> draw_sierpinski ACS_DIAMOND ax ay x1 y1 x2 y2 d s;
        s \<leftarrow> draw_line ax ay bx by' ACS_DIAMOND s;
        s \<leftarrow> draw_line bx by' cx cy ACS_DIAMOND s;
        s \<leftarrow> draw_line cx cy ax ay ACS_DIAMOND s;
        Some s
      })"

text \<open>
  The same function on a call stack with room for \<open>n\<close> frames: \<open>None\<close> also when a call
  would need one more. It measures how deep the recursion nests.
\<close>

fun draw_sierpinski_bounded ::
  "nat \<Rightarrow> 'ch \<Rightarrow> int \<Rightarrow> int \<Rightarrow> int \<Rightarrow> int \<Rightarrow> int \<Rightarrow> int \<Rightarrow> int \<Rightarrow> 'ch trace \<Rightarrow> 'ch trace option" where
  "draw_sierpinski_bounded 0 ACS_DIAMOND ax ay bx by' cx cy depth s = None"
| "draw_sierpinski_bounded (Suc n) ACS_DIAMOND ax ay bx by' cx cy depth s =
     (if depth = 0 then Some s
      else do {
        x \<leftarrow> half_way bx ax; y \<leftarrow> half_way ay by'; d \<leftarrow> int_sub depth 1;
        s \<leftarrow> draw_sierpinski_bounded n ACS_DIAMOND x y bx by' ax by' d s;
        x \<leftarrow> half_way ax cx; y \<leftarrow> half_way ay cy; d \<leftarrow> int_sub depth 1;
        s \<leftarrow> draw_sierpinski_bounded n ACS_DIAMOND x y ax by' cx cy d s;
        x1 \<leftarrow> half_way bx ax; y1 \<leftarrow> half_way ay by';
        x2 \<leftarrow> half_way ax cx; y2 \<leftarrow> half_way ay cy; d \<leftarrow> int_sub depth 1;
        s \<leftarrow> draw_sierpinski_bounded n ACS_DIAMOND ax ay x1 y1 x2 y2 d s;
        s \<leftarrow> draw_line ax ay bx by' ACS_DIAMOND s;
        s \<leftarrow> draw_line bx by' cx cy ACS_DIAMOND s;
        s \<leftarrow> draw_line cx cy ax ay ACS_DIAMOND s;
        Some s
      })"

subsection \<open>Inputs on which nothing overflows\<close>

text \<open>
  An interval of coordinates strictly inside the range of \<^verbatim>\<open>int\<close> and at most
  \<open>INT_MAX\<close> long: differences of two of its members do not overflow, and a loop that
  runs to one of its ends can still step past it.
\<close>

definition span_ok :: "int \<Rightarrow> int \<Rightarrow> bool" where
  "span_ok lo hi \<longleftrightarrow> INT_MIN < lo \<and> hi < INT_MAX \<and> hi - lo \<le> INT_MAX"

definition line_in_range :: "int \<Rightarrow> int \<Rightarrow> int \<Rightarrow> int \<Rightarrow> bool" where
  "line_in_range x0 y0 x1 y1 \<longleftrightarrow>
     span_ok (min x0 x1) (max x0 x1) \<and> span_ok (min y0 y1) (max y0 y1)"

definition triangle_in_range :: "int \<Rightarrow> int \<Rightarrow> int \<Rightarrow> int \<Rightarrow> int \<Rightarrow> int \<Rightarrow> bool" where
  "triangle_in_range ax ay bx by' cx cy \<longleftrightarrow>
     span_ok (min ax (min bx cx)) (max ax (max bx cx)) \<and>
     span_ok (min ay (min by' cy)) (max ay (max by' cy))"

subsection \<open>Reading a trace\<close>

text \<open>The cells plotted, in order, as points \<open>(x, y)\<close>.\<close>

fun cells :: "'ch trace \<Rightarrow> (int \<times> int) list" where
  "cells [] = []"
| "cells (Mvaddch y x ch # t) = (x, y) # cells t"
| "cells (Draw_line x0 y0 x1 y1 ch # t) = cells t"

text \<open>The cells plotted between the trace \<open>s\<close> and its extension \<open>s'\<close>.\<close>

definition plotted :: "'ch trace \<Rightarrow> 'ch trace \<Rightarrow> (int \<times> int) list" where
  "plotted s s' = cells (drop (length s) s')"

definition plot_calls :: "'ch trace \<Rightarrow> nat" where
  "plot_calls t = length (cells t)"

fun edges_drawn :: "'ch trace \<Rightarrow> nat" where
  "edges_drawn [] = 0"
| "edges_drawn (Draw_line x0 y0 x1 y1 ch # t) = Suc (edges_drawn t)"
| "edges_drawn (Mvaddch y x ch # t) = edges_drawn t"

subsection \<open>What the specification says about midpoints\<close>

text \<open>
  The specification's midpoint of two coordinates is the floor of their arithmetic mean.
  \<open>ceil_mean\<close> is the same mean rounded up.
\<close>

definition floor_mean :: "int \<Rightarrow> int \<Rightarrow> int" where
  "floor_mean a b = (a + b) div 2"

definition ceil_mean :: "int \<Rightarrow> int \<Rightarrow> int" where
  "ceil_mean a b = - ((- (a + b)) div 2)"

subsection \<open>Auxiliary functions for the proofs\<close>

text \<open>A point inside a rectangle of coordinates.\<close>

definition in_box :: "int \<Rightarrow> int \<Rightarrow> int \<Rightarrow> int \<Rightarrow> int \<Rightarrow> int \<Rightarrow> bool" where
  "in_box xl xh yl yh x y \<longleftrightarrow> xl \<le> x \<and> x \<le> xh \<and> yl \<le> y \<and> y \<le> yh"

text \<open>
  The cells of one loop of \<^verbatim>\<open>draw_line\<close> with the directions abstracted away: \<open>n\<close>
  iterations from position \<open>i\<close> on the stepped axis and \<open>m\<close> on the other, with deltas
  \<open>dM\<close> and \<open>dm\<close>.
\<close>

fun track :: "int \<Rightarrow> int \<Rightarrow> nat \<Rightarrow> int \<Rightarrow> int \<Rightarrow> int \<Rightarrow> (int \<times> int) list" where
  "track dM dm 0 dec i m = []"
| "track dM dm (Suc n) dec i m =
     (if dec \<le> 0 then (i, m + 1) # track dM dm n (dec + dM - dm) (i + 1) (m + 1)
      else (i, m) # track dM dm n (dec - dm) (i + 1) m)"

text \<open>The cells of a line in closed form; \<open>draw_line_closed\<close> shows that the loops plot them.\<close>

definition line_pts :: "int \<Rightarrow> int \<Rightarrow> int \<Rightarrow> int \<Rightarrow> (int \<times> int) list" where
  "line_pts x0 y0 x1 y1 =
     (let dx = \<bar>x1 - x0\<bar>; dy = \<bar>y1 - y0\<bar>;
          sx = (if x0 \<le> x1 then 1 else - 1); sy = (if y0 \<le> y1 then 1 else - 1)
      in if dx = 0 \<and> dy = 0 then [(x0, y0 + 1)]
         else if dy \<le> dx then
           map (\<lambda>k. (x0 + sx * int k, y0 + sy * ((int k * dy) div dx))) [0..<Suc (nat dx)]
         else
           map (\<lambda>k. (x0 + sx * ((int k * dx) div dy), y0 + sy * int k)) [0..<Suc (nat dy)])"

text \<open>The events of a call of \<^verbatim>\<open>draw_line\<close> that returns.\<close>

definition line_events :: "int \<Rightarrow> int \<Rightarrow> int \<Rightarrow> int \<Rightarrow> 'ch \<Rightarrow> 'ch trace" where
  "line_events x0 y0 x1 y1 ch =
     Draw_line x0 y0 x1 y1 ch # map (\<lambda>(x, y). Mvaddch y x ch) (line_pts x0 y0 x1 y1)"

text \<open>The events a returning call of \<^verbatim>\<open>draw_sierpinski\<close> appends to the trace.\<close>

fun sierpinski_trace ::
  "'ch \<Rightarrow> int \<Rightarrow> int \<Rightarrow> int \<Rightarrow> int \<Rightarrow> int \<Rightarrow> int \<Rightarrow> nat \<Rightarrow> 'ch trace" where
  "sierpinski_trace c ax ay bx by' cx cy 0 = []"
| "sierpinski_trace c ax ay bx by' cx cy (Suc n) =
     sierpinski_trace c (bx + (ax - bx) sdiv 2) (ay + (by' - ay) sdiv 2) bx by' ax by' n @
     sierpinski_trace c (ax + (cx - ax) sdiv 2) (ay + (cy - ay) sdiv 2) ax by' cx cy n @
     sierpinski_trace c ax ay (bx + (ax - bx) sdiv 2) (ay + (by' - ay) sdiv 2)
       (ax + (cx - ax) sdiv 2) (ay + (cy - ay) sdiv 2) n @
     line_events ax ay bx by' c @ line_events bx by' cx cy c @ line_events cx cy ax ay c"

section \<open>The loops in closed form\<close>

text \<open>
  When nothing overflows, a loop plots the cells of \<open>track\<close>: each lemma asks for the
  loop bound to be off the end of the range, for \<open>dec\<close> between \<open>-dM\<close> and \<open>dM\<close>, and
  for the cells themselves to be in range.
\<close>

lemma INT_MIN_MAX: "INT_MIN = - INT_MAX - 1" "0 < INT_MAX"
  by (simp_all add: INT_MIN_def INT_MAX_def)

lemma track_shift:
  "track dM dm n dec (a + i) (b + m) = map (\<lambda>(p, q). (a + p, b + q)) (track dM dm n dec i m)"
  by (induction n arbitrary: dec i m) (simp_all add: add.assoc)

lemma track_closed_aux:
  assumes "0 \<le> dm" "dm \<le> dM" "0 < dM"
  shows "dec = (m + 1) * dM - i * dm \<Longrightarrow> - dm < dec \<Longrightarrow> dec \<le> dM \<Longrightarrow>
         track dM dm n dec i m = map (\<lambda>k. (i + int k, ((i + int k) * dm) div dM)) [0..<n]"
proof (induction n arbitrary: dec i m)
  case 0
  show ?case by simp
next
  case (Suc n)
  have up: "[0..<Suc n] = 0 # map Suc [0..<n]"
    by (simp add: upt_conv_Cons map_Suc_upt del: upt_Suc)
  show ?case
  proof (cases "dec \<le> 0")
    case True
    have q: "(i * dm) div dM = m + 1"
    proof (rule int_div_pos_eq)
      show "i * dm = dM * (m + 1) + (- dec)" using Suc.prems(1) by (simp add: algebra_simps)
      show "0 \<le> - dec" using True by simp
      show "- dec < dM" using Suc.prems(2) assms by linarith
    qed
    have "track dM dm n (dec + dM - dm) (i + 1) (m + 1)
          = map (\<lambda>k. (i + 1 + int k, ((i + 1 + int k) * dm) div dM)) [0..<n]"
      using Suc.prems True assms by (intro Suc.IH) (auto simp: algebra_simps)
    then show ?thesis using True q
      by (simp add: up comp_def add.assoc del: upt_Suc)
  next
    case False
    have q: "(i * dm) div dM = m"
    proof (rule int_div_pos_eq)
      show "i * dm = dM * m + (dM - dec)" using Suc.prems(1) by (simp add: algebra_simps)
      show "0 \<le> dM - dec" using Suc.prems(3) by simp
      show "dM - dec < dM" using False by simp
    qed
    have "track dM dm n (dec - dm) (i + 1) m
          = map (\<lambda>k. (i + 1 + int k, ((i + 1 + int k) * dm) div dM)) [0..<n]"
      using Suc.prems False assms by (intro Suc.IH) (auto simp: algebra_simps)
    then show ?thesis using False q
      by (simp add: up comp_def add.assoc del: upt_Suc)
  qed
qed

lemma loop_xinc_yinc_track:
  assumes d: "0 \<le> dy" "dy \<le> dx" "dx \<le> INT_MAX" and b: "x1 < INT_MAX"
  shows "INT_MIN \<le> x0 \<Longrightarrow> - dx \<le> dec \<Longrightarrow> dec \<le> dx \<Longrightarrow>
     (\<forall>(i, m) \<in> set (track dx dy (nat (x1 + 1 - x0)) dec x0 y0). - INT_MAX \<le> m \<and> m \<le> INT_MAX) \<Longrightarrow>
     loop_xinc_yinc x1 dx dy ch x0 y0 dec s =
       Some (s @ map (\<lambda>(i, m). Mvaddch m i ch) (track dx dy (nat (x1 + 1 - x0)) dec x0 y0))"
proof (induction "nat (x1 + 1 - x0)" arbitrary: x0 y0 dec s)
  case 0
  then show ?case by (simp add: loop_xinc_yinc.simps track.simps)
next
  case (Suc n)
  from Suc.hyps(2) have le: "x0 \<le> x1" and sn: "nat (x1 + 1 - x0) = Suc n"
    and n: "n = nat (x1 + 1 - (x0 + 1))" by linarith+
  note cs = Suc.prems(4)[unfolded sn]
  have st: "int_add x0 1 = Some (x0 + 1)"
    using le b Suc.prems(1) by (simp add: int_add_def INT_MIN_MAX)
  have r: "INT_MIN \<le> (x0 + 1)" using le b Suc.prems(1) by (simp add: INT_MIN_MAX)
  show ?case
  proof (cases "dec \<le> 0")
    case True
    from cs True have c1: "- INT_MAX \<le> (y0 + 1)" "(y0 + 1) \<le> INT_MAX"
      and rest: "\<forall>(i, m) \<in> set (track dx dy n (dec + dx - dy) (x0 + 1) (y0 + 1)).
                  - INT_MAX \<le> m \<and> m \<le> INT_MAX"
      by (simp_all add: track.simps)
    have a1: "int_add dec dx = Some (dec + dx)"
      using True d Suc.prems(2) by (simp add: int_add_def INT_MIN_MAX)
    have a2: "int_add y0 1 = Some (y0 + 1)"
      using c1 by (simp add: int_add_def INT_MIN_MAX)
    have a3: "int_sub (dec + dx) dy = Some (dec + dx - dy)"
      using True d Suc.prems(2) by (simp add: int_sub_def INT_MIN_MAX)
    have lo: "- dx \<le> dec + dx - dy" and hi: "dec + dx - dy \<le> dx"
      using True d Suc.prems(2) by simp_all
    have cf: "\<forall>(i, m) \<in> set (track dx dy (nat (x1 + 1 - (x0 + 1))) (dec + dx - dy) (x0 + 1) (y0 + 1)).
                  - INT_MAX \<le> m \<and> m \<le> INT_MAX"
      unfolding n [symmetric] by (rule rest)
    note ih = Suc.hyps(1)[OF n r lo hi cf, unfolded n [symmetric]]
    show ?thesis
      by (subst loop_xinc_yinc.simps) (simp add: le True a1 a2 a3 st ih sn track.simps mvaddch_def)
  next
    case False
    from cs False have rest: "\<forall>(i, m) \<in> set (track dx dy n (dec - dy) (x0 + 1) y0).
                  - INT_MAX \<le> m \<and> m \<le> INT_MAX"
      by (simp_all add: track.simps)
    have a3: "int_sub dec dy = Some (dec - dy)"
      using False d Suc.prems(3) by (simp add: int_sub_def INT_MIN_MAX)
    have lo: "- dx \<le> dec - dy" and hi: "dec - dy \<le> dx"
      using False d Suc.prems(3) by simp_all
    have cf: "\<forall>(i, m) \<in> set (track dx dy (nat (x1 + 1 - (x0 + 1))) (dec - dy) (x0 + 1) y0).
                  - INT_MAX \<le> m \<and> m \<le> INT_MAX"
      unfolding n [symmetric] by (rule rest)
    note ih = Suc.hyps(1)[OF n r lo hi cf, unfolded n [symmetric]]
    show ?thesis
      by (subst loop_xinc_yinc.simps) (simp add: le False a3 st ih sn track.simps mvaddch_def)
  qed
qed

lemma loop_yinc_xinc_track:
  assumes d: "0 \<le> dx" "dx \<le> dy" "dy \<le> INT_MAX" and b: "y1 < INT_MAX"
  shows "INT_MIN \<le> y0 \<Longrightarrow> - dy \<le> dec \<Longrightarrow> dec \<le> dy \<Longrightarrow>
     (\<forall>(i, m) \<in> set (track dy dx (nat (y1 + 1 - y0)) dec y0 x0). - INT_MAX \<le> m \<and> m \<le> INT_MAX) \<Longrightarrow>
     loop_yinc_xinc y1 dx dy ch x0 y0 dec s =
       Some (s @ map (\<lambda>(i, m). Mvaddch i m ch) (track dy dx (nat (y1 + 1 - y0)) dec y0 x0))"
proof (induction "nat (y1 + 1 - y0)" arbitrary: x0 y0 dec s)
  case 0
  then show ?case by (simp add: loop_yinc_xinc.simps track.simps)
next
  case (Suc n)
  from Suc.hyps(2) have le: "y0 \<le> y1" and sn: "nat (y1 + 1 - y0) = Suc n"
    and n: "n = nat (y1 + 1 - (y0 + 1))" by linarith+
  note cs = Suc.prems(4)[unfolded sn]
  have st: "int_add y0 1 = Some (y0 + 1)"
    using le b Suc.prems(1) by (simp add: int_add_def INT_MIN_MAX)
  have r: "INT_MIN \<le> (y0 + 1)" using le b Suc.prems(1) by (simp add: INT_MIN_MAX)
  show ?case
  proof (cases "dec \<le> 0")
    case True
    from cs True have c1: "- INT_MAX \<le> (x0 + 1)" "(x0 + 1) \<le> INT_MAX"
      and rest: "\<forall>(i, m) \<in> set (track dy dx n (dec + dy - dx) (y0 + 1) (x0 + 1)).
                  - INT_MAX \<le> m \<and> m \<le> INT_MAX"
      by (simp_all add: track.simps)
    have a1: "int_add dec dy = Some (dec + dy)"
      using True d Suc.prems(2) by (simp add: int_add_def INT_MIN_MAX)
    have a2: "int_add x0 1 = Some (x0 + 1)"
      using c1 by (simp add: int_add_def INT_MIN_MAX)
    have a3: "int_sub (dec + dy) dx = Some (dec + dy - dx)"
      using True d Suc.prems(2) by (simp add: int_sub_def INT_MIN_MAX)
    have lo: "- dy \<le> dec + dy - dx" and hi: "dec + dy - dx \<le> dy"
      using True d Suc.prems(2) by simp_all
    have cf: "\<forall>(i, m) \<in> set (track dy dx (nat (y1 + 1 - (y0 + 1))) (dec + dy - dx) (y0 + 1) (x0 + 1)).
                  - INT_MAX \<le> m \<and> m \<le> INT_MAX"
      unfolding n [symmetric] by (rule rest)
    note ih = Suc.hyps(1)[OF n r lo hi cf, unfolded n [symmetric]]
    show ?thesis
      by (subst loop_yinc_xinc.simps) (simp add: le True a1 a2 a3 st ih sn track.simps mvaddch_def)
  next
    case False
    from cs False have rest: "\<forall>(i, m) \<in> set (track dy dx n (dec - dx) (y0 + 1) x0).
                  - INT_MAX \<le> m \<and> m \<le> INT_MAX"
      by (simp_all add: track.simps)
    have a3: "int_sub dec dx = Some (dec - dx)"
      using False d Suc.prems(3) by (simp add: int_sub_def INT_MIN_MAX)
    have lo: "- dy \<le> dec - dx" and hi: "dec - dx \<le> dy"
      using False d Suc.prems(3) by simp_all
    have cf: "\<forall>(i, m) \<in> set (track dy dx (nat (y1 + 1 - (y0 + 1))) (dec - dx) (y0 + 1) x0).
                  - INT_MAX \<le> m \<and> m \<le> INT_MAX"
      unfolding n [symmetric] by (rule rest)
    note ih = Suc.hyps(1)[OF n r lo hi cf, unfolded n [symmetric]]
    show ?thesis
      by (subst loop_yinc_xinc.simps) (simp add: le False a3 st ih sn track.simps mvaddch_def)
  qed
qed

lemma loop_xinc_ydec_track:
  assumes d: "0 \<le> dy" "dy \<le> dx" "dx \<le> INT_MAX" and b: "x1 < INT_MAX"
  shows "INT_MIN \<le> x0 \<Longrightarrow> - dx \<le> dec \<Longrightarrow> dec \<le> dx \<Longrightarrow>
     (\<forall>(i, m) \<in> set (track dx dy (nat (x1 + 1 - x0)) dec x0 (- y0)). - INT_MAX \<le> m \<and> m \<le> INT_MAX) \<Longrightarrow>
     loop_xinc_ydec x1 dx dy ch x0 y0 dec s =
       Some (s @ map (\<lambda>(i, m). Mvaddch (- m) i ch) (track dx dy (nat (x1 + 1 - x0)) dec x0 (- y0)))"
proof (induction "nat (x1 + 1 - x0)" arbitrary: x0 y0 dec s)
  case 0
  then show ?case by (simp add: loop_xinc_ydec.simps track.simps)
next
  case (Suc n)
  from Suc.hyps(2) have le: "x0 \<le> x1" and sn: "nat (x1 + 1 - x0) = Suc n"
    and n: "n = nat (x1 + 1 - (x0 + 1))" by linarith+
  note cs = Suc.prems(4)[unfolded sn]
  have st: "int_add x0 1 = Some (x0 + 1)"
    using le b Suc.prems(1) by (simp add: int_add_def INT_MIN_MAX)
  have r: "INT_MIN \<le> (x0 + 1)" using le b Suc.prems(1) by (simp add: INT_MIN_MAX)
  show ?case
  proof (cases "dec \<le> 0")
    case True
    from cs True have c1: "- INT_MAX \<le> ((- y0) + 1)" "((- y0) + 1) \<le> INT_MAX"
      and rest: "\<forall>(i, m) \<in> set (track dx dy n (dec + dx - dy) (x0 + 1) ((- y0) + 1)).
                  - INT_MAX \<le> m \<and> m \<le> INT_MAX"
      by (simp_all add: track.simps)
    have a1: "int_add dec dx = Some (dec + dx)"
      using True d Suc.prems(2) by (simp add: int_add_def INT_MIN_MAX)
    have a2: "int_sub y0 1 = Some (y0 - 1)"
      using c1 by (simp add: int_sub_def INT_MIN_MAX)
    have a3: "int_sub (dec + dx) dy = Some (dec + dx - dy)"
      using True d Suc.prems(2) by (simp add: int_sub_def INT_MIN_MAX)
    have eb: "(- (y0 - 1)) = ((- y0) + 1)" by simp
    have lo: "- dx \<le> dec + dx - dy" and hi: "dec + dx - dy \<le> dx"
      using True d Suc.prems(2) by simp_all
    have cf: "\<forall>(i, m) \<in> set (track dx dy (nat (x1 + 1 - (x0 + 1))) (dec + dx - dy) (x0 + 1) (- (y0 - 1))).
                  - INT_MAX \<le> m \<and> m \<le> INT_MAX"
      unfolding n [symmetric] eb by (rule rest)
    note ih = Suc.hyps(1)[OF n r lo hi cf, unfolded n [symmetric] eb]
    show ?thesis
      by (subst loop_xinc_ydec.simps) (simp add: le True a1 a2 a3 st ih sn track.simps mvaddch_def)
  next
    case False
    from cs False have rest: "\<forall>(i, m) \<in> set (track dx dy n (dec - dy) (x0 + 1) (- y0)).
                  - INT_MAX \<le> m \<and> m \<le> INT_MAX"
      by (simp_all add: track.simps)
    have a3: "int_sub dec dy = Some (dec - dy)"
      using False d Suc.prems(3) by (simp add: int_sub_def INT_MIN_MAX)
    have lo: "- dx \<le> dec - dy" and hi: "dec - dy \<le> dx"
      using False d Suc.prems(3) by simp_all
    have cf: "\<forall>(i, m) \<in> set (track dx dy (nat (x1 + 1 - (x0 + 1))) (dec - dy) (x0 + 1) (- y0)).
                  - INT_MAX \<le> m \<and> m \<le> INT_MAX"
      unfolding n [symmetric] by (rule rest)
    note ih = Suc.hyps(1)[OF n r lo hi cf, unfolded n [symmetric]]
    show ?thesis
      by (subst loop_xinc_ydec.simps) (simp add: le False a3 st ih sn track.simps mvaddch_def)
  qed
qed

lemma loop_ydec_xinc_track:
  assumes d: "0 \<le> dx" "dx \<le> dy" "dy \<le> INT_MAX" and b: "INT_MIN < y1"
  shows "y0 \<le> INT_MAX \<Longrightarrow> - dy \<le> dec \<Longrightarrow> dec \<le> dy \<Longrightarrow>
     (\<forall>(i, m) \<in> set (track dy dx (nat (y0 + 1 - y1)) dec (- y0) x0). - INT_MAX \<le> m \<and> m \<le> INT_MAX) \<Longrightarrow>
     loop_ydec_xinc y1 dx dy ch x0 y0 dec s =
       Some (s @ map (\<lambda>(i, m). Mvaddch (- i) m ch) (track dy dx (nat (y0 + 1 - y1)) dec (- y0) x0))"
proof (induction "nat (y0 + 1 - y1)" arbitrary: x0 y0 dec s)
  case 0
  then show ?case by (simp add: loop_ydec_xinc.simps track.simps)
next
  case (Suc n)
  from Suc.hyps(2) have le: "y1 \<le> y0" and sn: "nat (y0 + 1 - y1) = Suc n"
    and n: "n = nat ((y0 - 1) + 1 - y1)" by linarith+
  have ea: "(- (y0 - 1)) = ((- y0) + 1)" by simp
  note cs = Suc.prems(4)[unfolded sn]
  have st: "int_sub y0 1 = Some (y0 - 1)"
    using le b Suc.prems(1) by (simp add: int_sub_def INT_MIN_MAX)
  have r: "(y0 - 1) \<le> INT_MAX" using le b Suc.prems(1) by (simp add: INT_MIN_MAX)
  show ?case
  proof (cases "dec \<le> 0")
    case True
    from cs True have c1: "- INT_MAX \<le> (x0 + 1)" "(x0 + 1) \<le> INT_MAX"
      and rest: "\<forall>(i, m) \<in> set (track dy dx n (dec + dy - dx) ((- y0) + 1) (x0 + 1)).
                  - INT_MAX \<le> m \<and> m \<le> INT_MAX"
      by (simp_all add: track.simps)
    have a1: "int_add dec dy = Some (dec + dy)"
      using True d Suc.prems(2) by (simp add: int_add_def INT_MIN_MAX)
    have a2: "int_add x0 1 = Some (x0 + 1)"
      using c1 by (simp add: int_add_def INT_MIN_MAX)
    have a3: "int_sub (dec + dy) dx = Some (dec + dy - dx)"
      using True d Suc.prems(2) by (simp add: int_sub_def INT_MIN_MAX)
    have lo: "- dy \<le> dec + dy - dx" and hi: "dec + dy - dx \<le> dy"
      using True d Suc.prems(2) by simp_all
    have cf: "\<forall>(i, m) \<in> set (track dy dx (nat ((y0 - 1) + 1 - y1)) (dec + dy - dx) (- (y0 - 1)) (x0 + 1)).
                  - INT_MAX \<le> m \<and> m \<le> INT_MAX"
      unfolding n [symmetric] ea by (rule rest)
    note ih = Suc.hyps(1)[OF n r lo hi cf, unfolded n [symmetric] ea]
    show ?thesis
      by (subst loop_ydec_xinc.simps) (simp add: le True a1 a2 a3 st ih sn track.simps mvaddch_def)
  next
    case False
    from cs False have rest: "\<forall>(i, m) \<in> set (track dy dx n (dec - dx) ((- y0) + 1) x0).
                  - INT_MAX \<le> m \<and> m \<le> INT_MAX"
      by (simp_all add: track.simps)
    have a3: "int_sub dec dx = Some (dec - dx)"
      using False d Suc.prems(3) by (simp add: int_sub_def INT_MIN_MAX)
    have lo: "- dy \<le> dec - dx" and hi: "dec - dx \<le> dy"
      using False d Suc.prems(3) by simp_all
    have cf: "\<forall>(i, m) \<in> set (track dy dx (nat ((y0 - 1) + 1 - y1)) (dec - dx) (- (y0 - 1)) x0).
                  - INT_MAX \<le> m \<and> m \<le> INT_MAX"
      unfolding n [symmetric] ea by (rule rest)
    note ih = Suc.hyps(1)[OF n r lo hi cf, unfolded n [symmetric] ea]
    show ?thesis
      by (subst loop_ydec_xinc.simps) (simp add: le False a3 st ih sn track.simps mvaddch_def)
  qed
qed

lemma loop_xdec_yinc_track:
  assumes d: "0 \<le> dy" "dy \<le> dx" "dx \<le> INT_MAX" and b: "INT_MIN < x1"
  shows "x0 \<le> INT_MAX \<Longrightarrow> - dx \<le> dec \<Longrightarrow> dec \<le> dx \<Longrightarrow>
     (\<forall>(i, m) \<in> set (track dx dy (nat (x0 + 1 - x1)) dec (- x0) y0). - INT_MAX \<le> m \<and> m \<le> INT_MAX) \<Longrightarrow>
     loop_xdec_yinc x1 dx dy ch x0 y0 dec s =
       Some (s @ map (\<lambda>(i, m). Mvaddch m (- i) ch) (track dx dy (nat (x0 + 1 - x1)) dec (- x0) y0))"
proof (induction "nat (x0 + 1 - x1)" arbitrary: x0 y0 dec s)
  case 0
  then show ?case by (simp add: loop_xdec_yinc.simps track.simps)
next
  case (Suc n)
  from Suc.hyps(2) have le: "x1 \<le> x0" and sn: "nat (x0 + 1 - x1) = Suc n"
    and n: "n = nat ((x0 - 1) + 1 - x1)" by linarith+
  have ea: "(- (x0 - 1)) = ((- x0) + 1)" by simp
  note cs = Suc.prems(4)[unfolded sn]
  have st: "int_sub x0 1 = Some (x0 - 1)"
    using le b Suc.prems(1) by (simp add: int_sub_def INT_MIN_MAX)
  have r: "(x0 - 1) \<le> INT_MAX" using le b Suc.prems(1) by (simp add: INT_MIN_MAX)
  show ?case
  proof (cases "dec \<le> 0")
    case True
    from cs True have c1: "- INT_MAX \<le> (y0 + 1)" "(y0 + 1) \<le> INT_MAX"
      and rest: "\<forall>(i, m) \<in> set (track dx dy n (dec + dx - dy) ((- x0) + 1) (y0 + 1)).
                  - INT_MAX \<le> m \<and> m \<le> INT_MAX"
      by (simp_all add: track.simps)
    have a1: "int_add dec dx = Some (dec + dx)"
      using True d Suc.prems(2) by (simp add: int_add_def INT_MIN_MAX)
    have a2: "int_add y0 1 = Some (y0 + 1)"
      using c1 by (simp add: int_add_def INT_MIN_MAX)
    have a3: "int_sub (dec + dx) dy = Some (dec + dx - dy)"
      using True d Suc.prems(2) by (simp add: int_sub_def INT_MIN_MAX)
    have lo: "- dx \<le> dec + dx - dy" and hi: "dec + dx - dy \<le> dx"
      using True d Suc.prems(2) by simp_all
    have cf: "\<forall>(i, m) \<in> set (track dx dy (nat ((x0 - 1) + 1 - x1)) (dec + dx - dy) (- (x0 - 1)) (y0 + 1)).
                  - INT_MAX \<le> m \<and> m \<le> INT_MAX"
      unfolding n [symmetric] ea by (rule rest)
    note ih = Suc.hyps(1)[OF n r lo hi cf, unfolded n [symmetric] ea]
    show ?thesis
      by (subst loop_xdec_yinc.simps) (simp add: le True a1 a2 a3 st ih sn track.simps mvaddch_def)
  next
    case False
    from cs False have rest: "\<forall>(i, m) \<in> set (track dx dy n (dec - dy) ((- x0) + 1) y0).
                  - INT_MAX \<le> m \<and> m \<le> INT_MAX"
      by (simp_all add: track.simps)
    have a3: "int_sub dec dy = Some (dec - dy)"
      using False d Suc.prems(3) by (simp add: int_sub_def INT_MIN_MAX)
    have lo: "- dx \<le> dec - dy" and hi: "dec - dy \<le> dx"
      using False d Suc.prems(3) by simp_all
    have cf: "\<forall>(i, m) \<in> set (track dx dy (nat ((x0 - 1) + 1 - x1)) (dec - dy) (- (x0 - 1)) y0).
                  - INT_MAX \<le> m \<and> m \<le> INT_MAX"
      unfolding n [symmetric] ea by (rule rest)
    note ih = Suc.hyps(1)[OF n r lo hi cf, unfolded n [symmetric] ea]
    show ?thesis
      by (subst loop_xdec_yinc.simps) (simp add: le False a3 st ih sn track.simps mvaddch_def)
  qed
qed

lemma loop_yinc_xdec_track:
  assumes d: "0 \<le> dx" "dx \<le> dy" "dy \<le> INT_MAX" and b: "y1 < INT_MAX"
  shows "INT_MIN \<le> y0 \<Longrightarrow> - dy \<le> dec \<Longrightarrow> dec \<le> dy \<Longrightarrow>
     (\<forall>(i, m) \<in> set (track dy dx (nat (y1 + 1 - y0)) dec y0 (- x0)). - INT_MAX \<le> m \<and> m \<le> INT_MAX) \<Longrightarrow>
     loop_yinc_xdec y1 dx dy ch x0 y0 dec s =
       Some (s @ map (\<lambda>(i, m). Mvaddch i (- m) ch) (track dy dx (nat (y1 + 1 - y0)) dec y0 (- x0)))"
proof (induction "nat (y1 + 1 - y0)" arbitrary: x0 y0 dec s)
  case 0
  then show ?case by (simp add: loop_yinc_xdec.simps track.simps)
next
  case (Suc n)
  from Suc.hyps(2) have le: "y0 \<le> y1" and sn: "nat (y1 + 1 - y0) = Suc n"
    and n: "n = nat (y1 + 1 - (y0 + 1))" by linarith+
  note cs = Suc.prems(4)[unfolded sn]
  have st: "int_add y0 1 = Some (y0 + 1)"
    using le b Suc.prems(1) by (simp add: int_add_def INT_MIN_MAX)
  have r: "INT_MIN \<le> (y0 + 1)" using le b Suc.prems(1) by (simp add: INT_MIN_MAX)
  show ?case
  proof (cases "dec \<le> 0")
    case True
    from cs True have c1: "- INT_MAX \<le> ((- x0) + 1)" "((- x0) + 1) \<le> INT_MAX"
      and rest: "\<forall>(i, m) \<in> set (track dy dx n (dec + dy - dx) (y0 + 1) ((- x0) + 1)).
                  - INT_MAX \<le> m \<and> m \<le> INT_MAX"
      by (simp_all add: track.simps)
    have a1: "int_add dec dy = Some (dec + dy)"
      using True d Suc.prems(2) by (simp add: int_add_def INT_MIN_MAX)
    have a2: "int_sub x0 1 = Some (x0 - 1)"
      using c1 by (simp add: int_sub_def INT_MIN_MAX)
    have a3: "int_sub (dec + dy) dx = Some (dec + dy - dx)"
      using True d Suc.prems(2) by (simp add: int_sub_def INT_MIN_MAX)
    have eb: "(- (x0 - 1)) = ((- x0) + 1)" by simp
    have lo: "- dy \<le> dec + dy - dx" and hi: "dec + dy - dx \<le> dy"
      using True d Suc.prems(2) by simp_all
    have cf: "\<forall>(i, m) \<in> set (track dy dx (nat (y1 + 1 - (y0 + 1))) (dec + dy - dx) (y0 + 1) (- (x0 - 1))).
                  - INT_MAX \<le> m \<and> m \<le> INT_MAX"
      unfolding n [symmetric] eb by (rule rest)
    note ih = Suc.hyps(1)[OF n r lo hi cf, unfolded n [symmetric] eb]
    show ?thesis
      by (subst loop_yinc_xdec.simps) (simp add: le True a1 a2 a3 st ih sn track.simps mvaddch_def)
  next
    case False
    from cs False have rest: "\<forall>(i, m) \<in> set (track dy dx n (dec - dx) (y0 + 1) (- x0)).
                  - INT_MAX \<le> m \<and> m \<le> INT_MAX"
      by (simp_all add: track.simps)
    have a3: "int_sub dec dx = Some (dec - dx)"
      using False d Suc.prems(3) by (simp add: int_sub_def INT_MIN_MAX)
    have lo: "- dy \<le> dec - dx" and hi: "dec - dx \<le> dy"
      using False d Suc.prems(3) by simp_all
    have cf: "\<forall>(i, m) \<in> set (track dy dx (nat (y1 + 1 - (y0 + 1))) (dec - dx) (y0 + 1) (- x0)).
                  - INT_MAX \<le> m \<and> m \<le> INT_MAX"
      unfolding n [symmetric] by (rule rest)
    note ih = Suc.hyps(1)[OF n r lo hi cf, unfolded n [symmetric]]
    show ?thesis
      by (subst loop_yinc_xdec.simps) (simp add: le False a3 st ih sn track.simps mvaddch_def)
  qed
qed

lemma loop_xdec_ydec_track:
  assumes d: "0 \<le> dy" "dy \<le> dx" "dx \<le> INT_MAX" and b: "INT_MIN < x1"
  shows "x0 \<le> INT_MAX \<Longrightarrow> - dx \<le> dec \<Longrightarrow> dec \<le> dx \<Longrightarrow>
     (\<forall>(i, m) \<in> set (track dx dy (nat (x0 + 1 - x1)) dec (- x0) (- y0)). - INT_MAX \<le> m \<and> m \<le> INT_MAX) \<Longrightarrow>
     loop_xdec_ydec x1 dx dy ch x0 y0 dec s =
       Some (s @ map (\<lambda>(i, m). Mvaddch (- m) (- i) ch) (track dx dy (nat (x0 + 1 - x1)) dec (- x0) (- y0)))"
proof (induction "nat (x0 + 1 - x1)" arbitrary: x0 y0 dec s)
  case 0
  then show ?case by (simp add: loop_xdec_ydec.simps track.simps)
next
  case (Suc n)
  from Suc.hyps(2) have le: "x1 \<le> x0" and sn: "nat (x0 + 1 - x1) = Suc n"
    and n: "n = nat ((x0 - 1) + 1 - x1)" by linarith+
  have ea: "(- (x0 - 1)) = ((- x0) + 1)" by simp
  note cs = Suc.prems(4)[unfolded sn]
  have st: "int_sub x0 1 = Some (x0 - 1)"
    using le b Suc.prems(1) by (simp add: int_sub_def INT_MIN_MAX)
  have r: "(x0 - 1) \<le> INT_MAX" using le b Suc.prems(1) by (simp add: INT_MIN_MAX)
  show ?case
  proof (cases "dec \<le> 0")
    case True
    from cs True have c1: "- INT_MAX \<le> ((- y0) + 1)" "((- y0) + 1) \<le> INT_MAX"
      and rest: "\<forall>(i, m) \<in> set (track dx dy n (dec + dx - dy) ((- x0) + 1) ((- y0) + 1)).
                  - INT_MAX \<le> m \<and> m \<le> INT_MAX"
      by (simp_all add: track.simps)
    have a1: "int_add dec dx = Some (dec + dx)"
      using True d Suc.prems(2) by (simp add: int_add_def INT_MIN_MAX)
    have a2: "int_sub y0 1 = Some (y0 - 1)"
      using c1 by (simp add: int_sub_def INT_MIN_MAX)
    have a3: "int_sub (dec + dx) dy = Some (dec + dx - dy)"
      using True d Suc.prems(2) by (simp add: int_sub_def INT_MIN_MAX)
    have eb: "(- (y0 - 1)) = ((- y0) + 1)" by simp
    have lo: "- dx \<le> dec + dx - dy" and hi: "dec + dx - dy \<le> dx"
      using True d Suc.prems(2) by simp_all
    have cf: "\<forall>(i, m) \<in> set (track dx dy (nat ((x0 - 1) + 1 - x1)) (dec + dx - dy) (- (x0 - 1)) (- (y0 - 1))).
                  - INT_MAX \<le> m \<and> m \<le> INT_MAX"
      unfolding n [symmetric] ea eb by (rule rest)
    note ih = Suc.hyps(1)[OF n r lo hi cf, unfolded n [symmetric] ea eb]
    show ?thesis
      by (subst loop_xdec_ydec.simps) (simp add: le True a1 a2 a3 st ih sn track.simps mvaddch_def)
  next
    case False
    from cs False have rest: "\<forall>(i, m) \<in> set (track dx dy n (dec - dy) ((- x0) + 1) (- y0)).
                  - INT_MAX \<le> m \<and> m \<le> INT_MAX"
      by (simp_all add: track.simps)
    have a3: "int_sub dec dy = Some (dec - dy)"
      using False d Suc.prems(3) by (simp add: int_sub_def INT_MIN_MAX)
    have lo: "- dx \<le> dec - dy" and hi: "dec - dy \<le> dx"
      using False d Suc.prems(3) by simp_all
    have cf: "\<forall>(i, m) \<in> set (track dx dy (nat ((x0 - 1) + 1 - x1)) (dec - dy) (- (x0 - 1)) (- y0)).
                  - INT_MAX \<le> m \<and> m \<le> INT_MAX"
      unfolding n [symmetric] ea by (rule rest)
    note ih = Suc.hyps(1)[OF n r lo hi cf, unfolded n [symmetric] ea]
    show ?thesis
      by (subst loop_xdec_ydec.simps) (simp add: le False a3 st ih sn track.simps mvaddch_def)
  qed
qed

lemma loop_ydec_xdec_track:
  assumes d: "0 \<le> dx" "dx \<le> dy" "dy \<le> INT_MAX" and b: "INT_MIN < y1"
  shows "y0 \<le> INT_MAX \<Longrightarrow> - dy \<le> dec \<Longrightarrow> dec \<le> dy \<Longrightarrow>
     (\<forall>(i, m) \<in> set (track dy dx (nat (y0 + 1 - y1)) dec (- y0) (- x0)). - INT_MAX \<le> m \<and> m \<le> INT_MAX) \<Longrightarrow>
     loop_ydec_xdec y1 dx dy ch x0 y0 dec s =
       Some (s @ map (\<lambda>(i, m). Mvaddch (- i) (- m) ch) (track dy dx (nat (y0 + 1 - y1)) dec (- y0) (- x0)))"
proof (induction "nat (y0 + 1 - y1)" arbitrary: x0 y0 dec s)
  case 0
  then show ?case by (simp add: loop_ydec_xdec.simps track.simps)
next
  case (Suc n)
  from Suc.hyps(2) have le: "y1 \<le> y0" and sn: "nat (y0 + 1 - y1) = Suc n"
    and n: "n = nat ((y0 - 1) + 1 - y1)" by linarith+
  have ea: "(- (y0 - 1)) = ((- y0) + 1)" by simp
  note cs = Suc.prems(4)[unfolded sn]
  have st: "int_sub y0 1 = Some (y0 - 1)"
    using le b Suc.prems(1) by (simp add: int_sub_def INT_MIN_MAX)
  have r: "(y0 - 1) \<le> INT_MAX" using le b Suc.prems(1) by (simp add: INT_MIN_MAX)
  show ?case
  proof (cases "dec \<le> 0")
    case True
    from cs True have c1: "- INT_MAX \<le> ((- x0) + 1)" "((- x0) + 1) \<le> INT_MAX"
      and rest: "\<forall>(i, m) \<in> set (track dy dx n (dec + dy - dx) ((- y0) + 1) ((- x0) + 1)).
                  - INT_MAX \<le> m \<and> m \<le> INT_MAX"
      by (simp_all add: track.simps)
    have a1: "int_add dec dy = Some (dec + dy)"
      using True d Suc.prems(2) by (simp add: int_add_def INT_MIN_MAX)
    have a2: "int_sub x0 1 = Some (x0 - 1)"
      using c1 by (simp add: int_sub_def INT_MIN_MAX)
    have a3: "int_sub (dec + dy) dx = Some (dec + dy - dx)"
      using True d Suc.prems(2) by (simp add: int_sub_def INT_MIN_MAX)
    have eb: "(- (x0 - 1)) = ((- x0) + 1)" by simp
    have lo: "- dy \<le> dec + dy - dx" and hi: "dec + dy - dx \<le> dy"
      using True d Suc.prems(2) by simp_all
    have cf: "\<forall>(i, m) \<in> set (track dy dx (nat ((y0 - 1) + 1 - y1)) (dec + dy - dx) (- (y0 - 1)) (- (x0 - 1))).
                  - INT_MAX \<le> m \<and> m \<le> INT_MAX"
      unfolding n [symmetric] ea eb by (rule rest)
    note ih = Suc.hyps(1)[OF n r lo hi cf, unfolded n [symmetric] ea eb]
    show ?thesis
      by (subst loop_ydec_xdec.simps) (simp add: le True a1 a2 a3 st ih sn track.simps mvaddch_def)
  next
    case False
    from cs False have rest: "\<forall>(i, m) \<in> set (track dy dx n (dec - dx) ((- y0) + 1) (- x0)).
                  - INT_MAX \<le> m \<and> m \<le> INT_MAX"
      by (simp_all add: track.simps)
    have a3: "int_sub dec dx = Some (dec - dx)"
      using False d Suc.prems(3) by (simp add: int_sub_def INT_MIN_MAX)
    have lo: "- dy \<le> dec - dx" and hi: "dec - dx \<le> dy"
      using False d Suc.prems(3) by simp_all
    have cf: "\<forall>(i, m) \<in> set (track dy dx (nat ((y0 - 1) + 1 - y1)) (dec - dx) (- (y0 - 1)) (- x0)).
                  - INT_MAX \<le> m \<and> m \<le> INT_MAX"
      unfolding n [symmetric] ea by (rule rest)
    note ih = Suc.hyps(1)[OF n r lo hi cf, unfolded n [symmetric] ea]
    show ?thesis
      by (subst loop_ydec_xdec.simps) (simp add: le False a3 st ih sn track.simps mvaddch_def)
  qed
qed

declare track.simps [simp del]

lemma track_start:
  assumes "0 \<le> dm" "dm \<le> dM" "0 < dM"
  shows "track dM dm n dM a b = map (\<lambda>k. (a + int k, b + (int k * dm) div dM)) [0..<n]"
proof -
  have "track dM dm n dM (a + 0) (b + 0) = map (\<lambda>(p, q). (a + p, b + q)) (track dM dm n dM 0 0)"
    by (rule track_shift)
  also have "track dM dm n dM 0 0 = map (\<lambda>k. (0 + int k, ((0 + int k) * dm) div dM)) [0..<n]"
    using assms by (intro track_closed_aux) auto
  finally show ?thesis by (simp add: comp_def)
qed

lemma div_bounds:
  fixes k dM dm :: int
  assumes "0 \<le> k" "k \<le> dM" "0 \<le> dm" "0 < dM"
  shows "0 \<le> (k * dm) div dM" and "(k * dm) div dM \<le> dm"
proof -
  show "0 \<le> (k * dm) div dM"
    using assms by (simp add: pos_imp_zdiv_nonneg_iff)
  have "k * dm \<le> dM * dm" using assms by (intro mult_right_mono) auto
  then have "(k * dm) div dM \<le> (dM * dm) div dM" using assms by (intro zdiv_mono1) auto
  then show "(k * dm) div dM \<le> dm" using assms by simp
qed

lemma track_start_bounds:
  assumes "0 \<le> dm" "dm \<le> dM" "0 < dM" "n \<le> Suc (nat dM)"
  shows "\<forall>(i, m) \<in> set (track dM dm n dM a b). b \<le> m \<and> m \<le> b + dm"
proof -
  have "b \<le> b + (int k * dm) div dM \<and> b + (int k * dm) div dM \<le> b + dm" if "k < n" for k
  proof -
    from that assms(3,4) have "int k \<le> dM" by linarith
    with div_bounds[of "int k" dM dm] assms show ?thesis by simp
  qed
  then show ?thesis unfolding track_start[OF assms(1-3)] by auto
qed

lemma draw_line_o1:
  assumes oct: "x0 \<le> x1" "y0 \<le> y1" "y1 - y0 \<le> x1 - x0" "0 < x1 - x0"
    and rg: "line_in_range x0 y0 x1 y1"
  shows "draw_line x0 y0 x1 y1 ch s = Some (s @ line_events x0 y0 x1 y1 ch)"
proof -
  from rg oct have bxs: "INT_MIN < x0" "x0 < INT_MAX" "INT_MIN < x1" "x1 < INT_MAX" "(x1 - x0) \<le> INT_MAX"
    and bys: "INT_MIN < y0" "y0 < INT_MAX" "INT_MIN < y1" "y1 < INT_MAX" "(y1 - y0) \<le> INT_MAX"
    by (simp_all add: line_in_range_def span_ok_def min_def max_def)
  from oct have n: "nat (x1 + 1 - x0) = Suc (nat (x1 - x0))" by linarith
  have sub: "int_sub x1 x0 = Some (x1 - x0)" "int_sub y1 y0 = Some (y1 - y0)"
    using oct bxs bys by (simp_all add: int_sub_def INT_MIN_MAX)
  have d: "0 \<le> (y1 - y0)" "(y1 - y0) \<le> (x1 - x0)" "0 < (x1 - x0)" using oct by simp_all
  have tr: "track (x1 - x0) (y1 - y0) (Suc (nat (x1 - x0))) (x1 - x0) x0 y0 =
        map (\<lambda>k. (x0 + int k, y0 + (int k * (y1 - y0)) div (x1 - x0))) [0..<Suc (nat (x1 - x0))]"
    using d by (intro track_start)
  have "\<forall>(i, m) \<in> set (track (x1 - x0) (y1 - y0) (Suc (nat (x1 - x0))) (x1 - x0) x0 y0). y0 \<le> m \<and> m \<le> y0 + (y1 - y0)"
    using d by (intro track_start_bounds) simp_all
  then have cf: "\<forall>(i, m) \<in> set (track (x1 - x0) (y1 - y0) (nat (x1 + 1 - x0)) (x1 - x0) x0 y0).
      - INT_MAX \<le> m \<and> m \<le> INT_MAX"
    unfolding n using bxs bys oct by (auto simp: INT_MIN_MAX)
  have m0: "INT_MIN \<le> x0" "- (x1 - x0) \<le> (x1 - x0)" "(x1 - x0) \<le> (x1 - x0)" using bxs bys d by simp_all
  have "draw_line x0 y0 x1 y1 ch s =
        loop_xinc_yinc x1 (x1 - x0) (y1 - y0) ch x0 y0 (x1 - x0) (s @ [Draw_line x0 y0 x1 y1 ch])"
    using oct by (simp add: draw_line_def Let_def sub)
  also have "\<dots> = Some ((s @ [Draw_line x0 y0 x1 y1 ch]) @ map (\<lambda>(i, m). Mvaddch m i ch)
        (track (x1 - x0) (y1 - y0) (Suc (nat (x1 - x0))) (x1 - x0) x0 y0))"
    unfolding n [symmetric] using bxs bys by (intro loop_xinc_yinc_track[OF d(1,2) _ _ m0 cf]) simp_all
  finally show ?thesis
    using oct unfolding tr by (simp add: line_events_def line_pts_def Let_def comp_def del: upt_Suc)
qed

lemma draw_line_o2:
  assumes oct: "x0 \<le> x1" "y0 \<le> y1" "x1 - x0 < y1 - y0"
    and rg: "line_in_range x0 y0 x1 y1"
  shows "draw_line x0 y0 x1 y1 ch s = Some (s @ line_events x0 y0 x1 y1 ch)"
proof -
  from rg oct have bxs: "INT_MIN < x0" "x0 < INT_MAX" "INT_MIN < x1" "x1 < INT_MAX" "(x1 - x0) \<le> INT_MAX"
    and bys: "INT_MIN < y0" "y0 < INT_MAX" "INT_MIN < y1" "y1 < INT_MAX" "(y1 - y0) \<le> INT_MAX"
    by (simp_all add: line_in_range_def span_ok_def min_def max_def)
  from oct have n: "nat (y1 + 1 - y0) = Suc (nat (y1 - y0))" by linarith
  have sub: "int_sub x1 x0 = Some (x1 - x0)" "int_sub y1 y0 = Some (y1 - y0)"
    using oct bxs bys by (simp_all add: int_sub_def INT_MIN_MAX)
  have d: "0 \<le> (x1 - x0)" "(x1 - x0) \<le> (y1 - y0)" "0 < (y1 - y0)" using oct by simp_all
  have tr: "track (y1 - y0) (x1 - x0) (Suc (nat (y1 - y0))) (y1 - y0) y0 x0 =
        map (\<lambda>k. (y0 + int k, x0 + (int k * (x1 - x0)) div (y1 - y0))) [0..<Suc (nat (y1 - y0))]"
    using d by (intro track_start)
  have "\<forall>(i, m) \<in> set (track (y1 - y0) (x1 - x0) (Suc (nat (y1 - y0))) (y1 - y0) y0 x0). x0 \<le> m \<and> m \<le> x0 + (x1 - x0)"
    using d by (intro track_start_bounds) simp_all
  then have cf: "\<forall>(i, m) \<in> set (track (y1 - y0) (x1 - x0) (nat (y1 + 1 - y0)) (y1 - y0) y0 x0).
      - INT_MAX \<le> m \<and> m \<le> INT_MAX"
    unfolding n using bxs bys oct by (auto simp: INT_MIN_MAX)
  have m0: "INT_MIN \<le> y0" "- (y1 - y0) \<le> (y1 - y0)" "(y1 - y0) \<le> (y1 - y0)" using bxs bys d by simp_all
  have "draw_line x0 y0 x1 y1 ch s =
        loop_yinc_xinc y1 (x1 - x0) (y1 - y0) ch x0 y0 (y1 - y0) (s @ [Draw_line x0 y0 x1 y1 ch])"
    using oct by (simp add: draw_line_def Let_def sub)
  also have "\<dots> = Some ((s @ [Draw_line x0 y0 x1 y1 ch]) @ map (\<lambda>(i, m). Mvaddch i m ch)
        (track (y1 - y0) (x1 - x0) (Suc (nat (y1 - y0))) (y1 - y0) y0 x0))"
    unfolding n [symmetric] using bxs bys by (intro loop_yinc_xinc_track[OF d(1,2) _ _ m0 cf]) simp_all
  finally show ?thesis
    using oct unfolding tr by (simp add: line_events_def line_pts_def Let_def comp_def del: upt_Suc)
qed

lemma draw_line_o3:
  assumes oct: "x0 \<le> x1" "y1 < y0" "y0 - y1 \<le> x1 - x0"
    and rg: "line_in_range x0 y0 x1 y1"
  shows "draw_line x0 y0 x1 y1 ch s = Some (s @ line_events x0 y0 x1 y1 ch)"
proof -
  from rg oct have bxs: "INT_MIN < x0" "x0 < INT_MAX" "INT_MIN < x1" "x1 < INT_MAX" "(x1 - x0) \<le> INT_MAX"
    and bys: "INT_MIN < y0" "y0 < INT_MAX" "INT_MIN < y1" "y1 < INT_MAX" "(y0 - y1) \<le> INT_MAX"
    by (simp_all add: line_in_range_def span_ok_def min_def max_def)
  from oct have n: "nat (x1 + 1 - x0) = Suc (nat (x1 - x0))" by linarith
  have sub: "int_sub x1 x0 = Some (x1 - x0)" "int_sub y0 y1 = Some (y0 - y1)"
    using oct bxs bys by (simp_all add: int_sub_def INT_MIN_MAX)
  have d: "0 \<le> (y0 - y1)" "(y0 - y1) \<le> (x1 - x0)" "0 < (x1 - x0)" using oct by simp_all
  have tr: "track (x1 - x0) (y0 - y1) (Suc (nat (x1 - x0))) (x1 - x0) x0 (- y0) =
        map (\<lambda>k. (x0 + int k, (- y0) + (int k * (y0 - y1)) div (x1 - x0))) [0..<Suc (nat (x1 - x0))]"
    using d by (intro track_start)
  have "\<forall>(i, m) \<in> set (track (x1 - x0) (y0 - y1) (Suc (nat (x1 - x0))) (x1 - x0) x0 (- y0)). (- y0) \<le> m \<and> m \<le> (- y0) + (y0 - y1)"
    using d by (intro track_start_bounds) simp_all
  then have cf: "\<forall>(i, m) \<in> set (track (x1 - x0) (y0 - y1) (nat (x1 + 1 - x0)) (x1 - x0) x0 (- y0)).
      - INT_MAX \<le> m \<and> m \<le> INT_MAX"
    unfolding n using bxs bys oct by (auto simp: INT_MIN_MAX)
  have m0: "INT_MIN \<le> x0" "- (x1 - x0) \<le> (x1 - x0)" "(x1 - x0) \<le> (x1 - x0)" using bxs bys d by simp_all
  have "draw_line x0 y0 x1 y1 ch s =
        loop_xinc_ydec x1 (x1 - x0) (y0 - y1) ch x0 y0 (x1 - x0) (s @ [Draw_line x0 y0 x1 y1 ch])"
    using oct by (simp add: draw_line_def Let_def sub)
  also have "\<dots> = Some ((s @ [Draw_line x0 y0 x1 y1 ch]) @ map (\<lambda>(i, m). Mvaddch (- m) i ch)
        (track (x1 - x0) (y0 - y1) (Suc (nat (x1 - x0))) (x1 - x0) x0 (- y0)))"
    unfolding n [symmetric] using bxs bys by (intro loop_xinc_ydec_track[OF d(1,2) _ _ m0 cf]) simp_all
  finally show ?thesis
    using oct unfolding tr by (simp add: line_events_def line_pts_def Let_def comp_def del: upt_Suc)
qed

lemma draw_line_o4:
  assumes oct: "x0 \<le> x1" "y1 < y0" "x1 - x0 < y0 - y1"
    and rg: "line_in_range x0 y0 x1 y1"
  shows "draw_line x0 y0 x1 y1 ch s = Some (s @ line_events x0 y0 x1 y1 ch)"
proof -
  from rg oct have bxs: "INT_MIN < x0" "x0 < INT_MAX" "INT_MIN < x1" "x1 < INT_MAX" "(x1 - x0) \<le> INT_MAX"
    and bys: "INT_MIN < y0" "y0 < INT_MAX" "INT_MIN < y1" "y1 < INT_MAX" "(y0 - y1) \<le> INT_MAX"
    by (simp_all add: line_in_range_def span_ok_def min_def max_def)
  from oct have n: "nat (y0 + 1 - y1) = Suc (nat (y0 - y1))" by linarith
  have sub: "int_sub x1 x0 = Some (x1 - x0)" "int_sub y0 y1 = Some (y0 - y1)"
    using oct bxs bys by (simp_all add: int_sub_def INT_MIN_MAX)
  have d: "0 \<le> (x1 - x0)" "(x1 - x0) \<le> (y0 - y1)" "0 < (y0 - y1)" using oct by simp_all
  have tr: "track (y0 - y1) (x1 - x0) (Suc (nat (y0 - y1))) (y0 - y1) (- y0) x0 =
        map (\<lambda>k. ((- y0) + int k, x0 + (int k * (x1 - x0)) div (y0 - y1))) [0..<Suc (nat (y0 - y1))]"
    using d by (intro track_start)
  have "\<forall>(i, m) \<in> set (track (y0 - y1) (x1 - x0) (Suc (nat (y0 - y1))) (y0 - y1) (- y0) x0). x0 \<le> m \<and> m \<le> x0 + (x1 - x0)"
    using d by (intro track_start_bounds) simp_all
  then have cf: "\<forall>(i, m) \<in> set (track (y0 - y1) (x1 - x0) (nat (y0 + 1 - y1)) (y0 - y1) (- y0) x0).
      - INT_MAX \<le> m \<and> m \<le> INT_MAX"
    unfolding n using bxs bys oct by (auto simp: INT_MIN_MAX)
  have m0: "y0 \<le> INT_MAX" "- (y0 - y1) \<le> (y0 - y1)" "(y0 - y1) \<le> (y0 - y1)" using bxs bys d by simp_all
  have "draw_line x0 y0 x1 y1 ch s =
        loop_ydec_xinc y1 (x1 - x0) (y0 - y1) ch x0 y0 (y0 - y1) (s @ [Draw_line x0 y0 x1 y1 ch])"
    using oct by (simp add: draw_line_def Let_def sub)
  also have "\<dots> = Some ((s @ [Draw_line x0 y0 x1 y1 ch]) @ map (\<lambda>(i, m). Mvaddch (- i) m ch)
        (track (y0 - y1) (x1 - x0) (Suc (nat (y0 - y1))) (y0 - y1) (- y0) x0))"
    unfolding n [symmetric] using bxs bys by (intro loop_ydec_xinc_track[OF d(1,2) _ _ m0 cf]) simp_all
  finally show ?thesis
    using oct unfolding tr by (simp add: line_events_def line_pts_def Let_def comp_def del: upt_Suc)
qed

lemma draw_line_o5:
  assumes oct: "x1 < x0" "y0 \<le> y1" "y1 - y0 \<le> x0 - x1"
    and rg: "line_in_range x0 y0 x1 y1"
  shows "draw_line x0 y0 x1 y1 ch s = Some (s @ line_events x0 y0 x1 y1 ch)"
proof -
  from rg oct have bxs: "INT_MIN < x0" "x0 < INT_MAX" "INT_MIN < x1" "x1 < INT_MAX" "(x0 - x1) \<le> INT_MAX"
    and bys: "INT_MIN < y0" "y0 < INT_MAX" "INT_MIN < y1" "y1 < INT_MAX" "(y1 - y0) \<le> INT_MAX"
    by (simp_all add: line_in_range_def span_ok_def min_def max_def)
  from oct have n: "nat (x0 + 1 - x1) = Suc (nat (x0 - x1))" by linarith
  have sub: "int_sub x0 x1 = Some (x0 - x1)" "int_sub y1 y0 = Some (y1 - y0)"
    using oct bxs bys by (simp_all add: int_sub_def INT_MIN_MAX)
  have d: "0 \<le> (y1 - y0)" "(y1 - y0) \<le> (x0 - x1)" "0 < (x0 - x1)" using oct by simp_all
  have tr: "track (x0 - x1) (y1 - y0) (Suc (nat (x0 - x1))) (x0 - x1) (- x0) y0 =
        map (\<lambda>k. ((- x0) + int k, y0 + (int k * (y1 - y0)) div (x0 - x1))) [0..<Suc (nat (x0 - x1))]"
    using d by (intro track_start)
  have "\<forall>(i, m) \<in> set (track (x0 - x1) (y1 - y0) (Suc (nat (x0 - x1))) (x0 - x1) (- x0) y0). y0 \<le> m \<and> m \<le> y0 + (y1 - y0)"
    using d by (intro track_start_bounds) simp_all
  then have cf: "\<forall>(i, m) \<in> set (track (x0 - x1) (y1 - y0) (nat (x0 + 1 - x1)) (x0 - x1) (- x0) y0).
      - INT_MAX \<le> m \<and> m \<le> INT_MAX"
    unfolding n using bxs bys oct by (auto simp: INT_MIN_MAX)
  have m0: "x0 \<le> INT_MAX" "- (x0 - x1) \<le> (x0 - x1)" "(x0 - x1) \<le> (x0 - x1)" using bxs bys d by simp_all
  have "draw_line x0 y0 x1 y1 ch s =
        loop_xdec_yinc x1 (x0 - x1) (y1 - y0) ch x0 y0 (x0 - x1) (s @ [Draw_line x0 y0 x1 y1 ch])"
    using oct by (simp add: draw_line_def Let_def sub)
  also have "\<dots> = Some ((s @ [Draw_line x0 y0 x1 y1 ch]) @ map (\<lambda>(i, m). Mvaddch m (- i) ch)
        (track (x0 - x1) (y1 - y0) (Suc (nat (x0 - x1))) (x0 - x1) (- x0) y0))"
    unfolding n [symmetric] using bxs bys by (intro loop_xdec_yinc_track[OF d(1,2) _ _ m0 cf]) simp_all
  finally show ?thesis
    using oct unfolding tr by (simp add: line_events_def line_pts_def Let_def comp_def del: upt_Suc)
qed

lemma draw_line_o6:
  assumes oct: "x1 < x0" "y0 \<le> y1" "x0 - x1 < y1 - y0"
    and rg: "line_in_range x0 y0 x1 y1"
  shows "draw_line x0 y0 x1 y1 ch s = Some (s @ line_events x0 y0 x1 y1 ch)"
proof -
  from rg oct have bxs: "INT_MIN < x0" "x0 < INT_MAX" "INT_MIN < x1" "x1 < INT_MAX" "(x0 - x1) \<le> INT_MAX"
    and bys: "INT_MIN < y0" "y0 < INT_MAX" "INT_MIN < y1" "y1 < INT_MAX" "(y1 - y0) \<le> INT_MAX"
    by (simp_all add: line_in_range_def span_ok_def min_def max_def)
  from oct have n: "nat (y1 + 1 - y0) = Suc (nat (y1 - y0))" by linarith
  have sub: "int_sub x0 x1 = Some (x0 - x1)" "int_sub y1 y0 = Some (y1 - y0)"
    using oct bxs bys by (simp_all add: int_sub_def INT_MIN_MAX)
  have d: "0 \<le> (x0 - x1)" "(x0 - x1) \<le> (y1 - y0)" "0 < (y1 - y0)" using oct by simp_all
  have tr: "track (y1 - y0) (x0 - x1) (Suc (nat (y1 - y0))) (y1 - y0) y0 (- x0) =
        map (\<lambda>k. (y0 + int k, (- x0) + (int k * (x0 - x1)) div (y1 - y0))) [0..<Suc (nat (y1 - y0))]"
    using d by (intro track_start)
  have "\<forall>(i, m) \<in> set (track (y1 - y0) (x0 - x1) (Suc (nat (y1 - y0))) (y1 - y0) y0 (- x0)). (- x0) \<le> m \<and> m \<le> (- x0) + (x0 - x1)"
    using d by (intro track_start_bounds) simp_all
  then have cf: "\<forall>(i, m) \<in> set (track (y1 - y0) (x0 - x1) (nat (y1 + 1 - y0)) (y1 - y0) y0 (- x0)).
      - INT_MAX \<le> m \<and> m \<le> INT_MAX"
    unfolding n using bxs bys oct by (auto simp: INT_MIN_MAX)
  have m0: "INT_MIN \<le> y0" "- (y1 - y0) \<le> (y1 - y0)" "(y1 - y0) \<le> (y1 - y0)" using bxs bys d by simp_all
  have "draw_line x0 y0 x1 y1 ch s =
        loop_yinc_xdec y1 (x0 - x1) (y1 - y0) ch x0 y0 (y1 - y0) (s @ [Draw_line x0 y0 x1 y1 ch])"
    using oct by (simp add: draw_line_def Let_def sub)
  also have "\<dots> = Some ((s @ [Draw_line x0 y0 x1 y1 ch]) @ map (\<lambda>(i, m). Mvaddch i (- m) ch)
        (track (y1 - y0) (x0 - x1) (Suc (nat (y1 - y0))) (y1 - y0) y0 (- x0)))"
    unfolding n [symmetric] using bxs bys by (intro loop_yinc_xdec_track[OF d(1,2) _ _ m0 cf]) simp_all
  finally show ?thesis
    using oct unfolding tr by (simp add: line_events_def line_pts_def Let_def comp_def del: upt_Suc)
qed

lemma draw_line_o7:
  assumes oct: "x1 < x0" "y1 < y0" "y0 - y1 \<le> x0 - x1"
    and rg: "line_in_range x0 y0 x1 y1"
  shows "draw_line x0 y0 x1 y1 ch s = Some (s @ line_events x0 y0 x1 y1 ch)"
proof -
  from rg oct have bxs: "INT_MIN < x0" "x0 < INT_MAX" "INT_MIN < x1" "x1 < INT_MAX" "(x0 - x1) \<le> INT_MAX"
    and bys: "INT_MIN < y0" "y0 < INT_MAX" "INT_MIN < y1" "y1 < INT_MAX" "(y0 - y1) \<le> INT_MAX"
    by (simp_all add: line_in_range_def span_ok_def min_def max_def)
  from oct have n: "nat (x0 + 1 - x1) = Suc (nat (x0 - x1))" by linarith
  have sub: "int_sub x0 x1 = Some (x0 - x1)" "int_sub y0 y1 = Some (y0 - y1)"
    using oct bxs bys by (simp_all add: int_sub_def INT_MIN_MAX)
  have d: "0 \<le> (y0 - y1)" "(y0 - y1) \<le> (x0 - x1)" "0 < (x0 - x1)" using oct by simp_all
  have tr: "track (x0 - x1) (y0 - y1) (Suc (nat (x0 - x1))) (x0 - x1) (- x0) (- y0) =
        map (\<lambda>k. ((- x0) + int k, (- y0) + (int k * (y0 - y1)) div (x0 - x1))) [0..<Suc (nat (x0 - x1))]"
    using d by (intro track_start)
  have "\<forall>(i, m) \<in> set (track (x0 - x1) (y0 - y1) (Suc (nat (x0 - x1))) (x0 - x1) (- x0) (- y0)). (- y0) \<le> m \<and> m \<le> (- y0) + (y0 - y1)"
    using d by (intro track_start_bounds) simp_all
  then have cf: "\<forall>(i, m) \<in> set (track (x0 - x1) (y0 - y1) (nat (x0 + 1 - x1)) (x0 - x1) (- x0) (- y0)).
      - INT_MAX \<le> m \<and> m \<le> INT_MAX"
    unfolding n using bxs bys oct by (auto simp: INT_MIN_MAX)
  have m0: "x0 \<le> INT_MAX" "- (x0 - x1) \<le> (x0 - x1)" "(x0 - x1) \<le> (x0 - x1)" using bxs bys d by simp_all
  have "draw_line x0 y0 x1 y1 ch s =
        loop_xdec_ydec x1 (x0 - x1) (y0 - y1) ch x0 y0 (x0 - x1) (s @ [Draw_line x0 y0 x1 y1 ch])"
    using oct by (simp add: draw_line_def Let_def sub)
  also have "\<dots> = Some ((s @ [Draw_line x0 y0 x1 y1 ch]) @ map (\<lambda>(i, m). Mvaddch (- m) (- i) ch)
        (track (x0 - x1) (y0 - y1) (Suc (nat (x0 - x1))) (x0 - x1) (- x0) (- y0)))"
    unfolding n [symmetric] using bxs bys by (intro loop_xdec_ydec_track[OF d(1,2) _ _ m0 cf]) simp_all
  finally show ?thesis
    using oct unfolding tr by (simp add: line_events_def line_pts_def Let_def comp_def del: upt_Suc)
qed

lemma draw_line_o8:
  assumes oct: "x1 < x0" "y1 < y0" "x0 - x1 < y0 - y1"
    and rg: "line_in_range x0 y0 x1 y1"
  shows "draw_line x0 y0 x1 y1 ch s = Some (s @ line_events x0 y0 x1 y1 ch)"
proof -
  from rg oct have bxs: "INT_MIN < x0" "x0 < INT_MAX" "INT_MIN < x1" "x1 < INT_MAX" "(x0 - x1) \<le> INT_MAX"
    and bys: "INT_MIN < y0" "y0 < INT_MAX" "INT_MIN < y1" "y1 < INT_MAX" "(y0 - y1) \<le> INT_MAX"
    by (simp_all add: line_in_range_def span_ok_def min_def max_def)
  from oct have n: "nat (y0 + 1 - y1) = Suc (nat (y0 - y1))" by linarith
  have sub: "int_sub x0 x1 = Some (x0 - x1)" "int_sub y0 y1 = Some (y0 - y1)"
    using oct bxs bys by (simp_all add: int_sub_def INT_MIN_MAX)
  have d: "0 \<le> (x0 - x1)" "(x0 - x1) \<le> (y0 - y1)" "0 < (y0 - y1)" using oct by simp_all
  have tr: "track (y0 - y1) (x0 - x1) (Suc (nat (y0 - y1))) (y0 - y1) (- y0) (- x0) =
        map (\<lambda>k. ((- y0) + int k, (- x0) + (int k * (x0 - x1)) div (y0 - y1))) [0..<Suc (nat (y0 - y1))]"
    using d by (intro track_start)
  have "\<forall>(i, m) \<in> set (track (y0 - y1) (x0 - x1) (Suc (nat (y0 - y1))) (y0 - y1) (- y0) (- x0)). (- x0) \<le> m \<and> m \<le> (- x0) + (x0 - x1)"
    using d by (intro track_start_bounds) simp_all
  then have cf: "\<forall>(i, m) \<in> set (track (y0 - y1) (x0 - x1) (nat (y0 + 1 - y1)) (y0 - y1) (- y0) (- x0)).
      - INT_MAX \<le> m \<and> m \<le> INT_MAX"
    unfolding n using bxs bys oct by (auto simp: INT_MIN_MAX)
  have m0: "y0 \<le> INT_MAX" "- (y0 - y1) \<le> (y0 - y1)" "(y0 - y1) \<le> (y0 - y1)" using bxs bys d by simp_all
  have "draw_line x0 y0 x1 y1 ch s =
        loop_ydec_xdec y1 (x0 - x1) (y0 - y1) ch x0 y0 (y0 - y1) (s @ [Draw_line x0 y0 x1 y1 ch])"
    using oct by (simp add: draw_line_def Let_def sub)
  also have "\<dots> = Some ((s @ [Draw_line x0 y0 x1 y1 ch]) @ map (\<lambda>(i, m). Mvaddch (- i) (- m) ch)
        (track (y0 - y1) (x0 - x1) (Suc (nat (y0 - y1))) (y0 - y1) (- y0) (- x0)))"
    unfolding n [symmetric] using bxs bys by (intro loop_ydec_xdec_track[OF d(1,2) _ _ m0 cf]) simp_all
  finally show ?thesis
    using oct unfolding tr by (simp add: line_events_def line_pts_def Let_def comp_def del: upt_Suc)
qed

lemma draw_line_degenerate:
  assumes "line_in_range x y x y"
  shows "draw_line x y x y ch s = Some (s @ [Draw_line x y x y ch, Mvaddch (y + 1) x ch])"
proof -
  from assms have b: "INT_MIN < x" "x < INT_MAX" "INT_MIN < y" "y < INT_MAX"
    by (simp_all add: line_in_range_def span_ok_def)
  have a: "int_sub x x = Some 0" "int_sub y y = Some 0" "int_add 0 0 = Some 0"
    "int_sub 0 0 = Some 0" "int_add y 1 = Some (y + 1)" "int_add x 1 = Some (x + 1)"
    using b by (simp_all add: int_sub_def int_add_def INT_MIN_MAX)
  have "loop_xinc_yinc x 0 0 ch (x + 1) (y + 1) 0 t = Some t" for t :: "'a trace"
    by (subst loop_xinc_yinc.simps) simp
  then have "loop_xinc_yinc x 0 0 ch x y 0 t = Some (t @ [Mvaddch (y + 1) x ch])" for t :: "'a trace"
    by (subst loop_xinc_yinc.simps) (simp add: a mvaddch_def)
  then show ?thesis by (simp add: draw_line_def a)
qed

lemma draw_line_closed:
  assumes rg: "line_in_range x0 y0 x1 y1"
  shows "draw_line x0 y0 x1 y1 ch s = Some (s @ line_events x0 y0 x1 y1 ch)"
proof (cases "x0 \<le> x1")
  case xle: True
  show ?thesis
  proof (cases "y0 \<le> y1")
    case yle: True
    show ?thesis
    proof (cases "y1 - y0 \<le> x1 - x0")
      case shallow: True
      show ?thesis
      proof (cases "x1 = x0")
        case True
        with xle yle shallow have "y1 = y0" by simp
        with True rg show ?thesis
          by (simp add: draw_line_degenerate line_events_def line_pts_def)
      next
        case False
        with xle yle shallow rg show ?thesis by (intro draw_line_o1) simp_all
      qed
    next
      case False
      with xle yle rg show ?thesis by (intro draw_line_o2) simp_all
    qed
  next
    case ygt: False
    show ?thesis
    proof (cases "y0 - y1 \<le> x1 - x0")
      case True
      with xle ygt rg show ?thesis by (intro draw_line_o3) simp_all
    next
      case False
      with xle ygt rg show ?thesis by (intro draw_line_o4) simp_all
    qed
  qed
next
  case xgt: False
  show ?thesis
  proof (cases "y0 \<le> y1")
    case yle: True
    show ?thesis
    proof (cases "y1 - y0 \<le> x0 - x1")
      case True
      with xgt yle rg show ?thesis by (intro draw_line_o5) simp_all
    next
      case False
      with xgt yle rg show ?thesis by (intro draw_line_o6) simp_all
    qed
  next
    case ygt: False
    show ?thesis
    proof (cases "y0 - y1 \<le> x0 - x1")
      case True
      with xgt ygt rg show ?thesis by (intro draw_line_o7) simp_all
    next
      case False
      with xgt ygt rg show ?thesis by (intro draw_line_o8) simp_all
    qed
  qed
qed

lemma line_in_range_commute: "line_in_range x1 y1 x0 y0 = line_in_range x0 y0 x1 y1"
  by (simp add: line_in_range_def min.commute max.commute)

lemma cells_plots: "cells (map (\<lambda>(x, y). Mvaddch y x ch) ps) = ps"
  by (induction ps) auto

lemma cells_line_events: "cells (line_events x0 y0 x1 y1 ch) = line_pts x0 y0 x1 y1"
  by (simp add: line_events_def cells_plots)

lemma plotted_draw_line:
  "line_in_range x0 y0 x1 y1 \<Longrightarrow>
     map_option (plotted s) (draw_line x0 y0 x1 y1 ch s) = Some (line_pts x0 y0 x1 y1)"
  by (simp add: plotted_def draw_line_closed cells_line_events)


section \<open>Properties of the plotted cells\<close>

lemma line_pts_shallow:
  assumes "\<bar>y1 - y0\<bar> \<le> \<bar>x1 - x0\<bar>" "x0 \<noteq> x1"
  shows "line_pts x0 y0 x1 y1 =
    map (\<lambda>k. (x0 + (if x0 \<le> x1 then 1 else - 1) * int k,
               y0 + (if y0 \<le> y1 then 1 else - 1) * ((int k * \<bar>y1 - y0\<bar>) div \<bar>x1 - x0\<bar>)))
        [0..<Suc (nat \<bar>x1 - x0\<bar>)]"
  using assms unfolding line_pts_def Let_def by simp

lemma line_pts_steep:
  assumes "\<bar>x1 - x0\<bar> < \<bar>y1 - y0\<bar>"
  shows "line_pts x0 y0 x1 y1 =
    map (\<lambda>k. (x0 + (if x0 \<le> x1 then 1 else - 1) * ((int k * \<bar>x1 - x0\<bar>) div \<bar>y1 - y0\<bar>),
               y0 + (if y0 \<le> y1 then 1 else - 1) * int k))
        [0..<Suc (nat \<bar>y1 - y0\<bar>)]"
  using assms unfolding line_pts_def Let_def by auto

lemma line_pts_point: "line_pts x y x y = [(x, y + 1)]"
  by (simp add: line_pts_def)

lemma line_pts_cases [case_names point shallow steep]:
  fixes x0 y0 x1 y1 :: int
  assumes "x1 = x0 \<Longrightarrow> y1 = y0 \<Longrightarrow> P"
    and "\<bar>y1 - y0\<bar> \<le> \<bar>x1 - x0\<bar> \<Longrightarrow> x0 \<noteq> x1 \<Longrightarrow> P"
    and "\<bar>x1 - x0\<bar> < \<bar>y1 - y0\<bar> \<Longrightarrow> P"
  shows P
proof (cases "x1 = x0")
  case True
  then show ?thesis using assms(1,3) by (cases "y1 = y0") auto
next
  case False
  then show ?thesis using assms(2,3) by (cases "\<bar>y1 - y0\<bar> \<le> \<bar>x1 - x0\<bar>") auto
qed

lemma length_line_pts: "length (line_pts x0 y0 x1 y1) = nat (max \<bar>x1 - x0\<bar> \<bar>y1 - y0\<bar>) + 1"
proof (rule line_pts_cases[of x1 x0 y1 y0])
  assume point: "x1 = x0" "y1 = y0"
  then show ?thesis by (simp add: line_pts_point)
next
  assume shallow: "\<bar>y1 - y0\<bar> \<le> \<bar>x1 - x0\<bar>" "x0 \<noteq> x1"
  then show ?thesis by (simp add: line_pts_shallow max_def del: upt_Suc)
next
  assume steep: "\<bar>x1 - x0\<bar> < \<bar>y1 - y0\<bar>"
  then show ?thesis by (simp add: line_pts_steep max_def del: upt_Suc)
qed

lemma distinct_line_pts: "distinct (line_pts x0 y0 x1 y1)"
proof (rule line_pts_cases[of x1 x0 y1 y0])
  assume point: "x1 = x0" "y1 = y0"
  then show ?thesis by (simp add: line_pts_point)
next
  assume shallow: "\<bar>y1 - y0\<bar> \<le> \<bar>x1 - x0\<bar>" "x0 \<noteq> x1"
  show ?thesis unfolding line_pts_shallow[OF shallow]
    by (rule iffD2[OF distinct_map]) (auto simp: inj_on_def simp del: upt_Suc)
next
  assume steep: "\<bar>x1 - x0\<bar> < \<bar>y1 - y0\<bar>"
  show ?thesis unfolding line_pts_steep[OF steep]
    by (rule iffD2[OF distinct_map]) (auto simp: inj_on_def simp del: upt_Suc)
qed

lemma div_step:
  fixes a b k :: int
  assumes "0 \<le> b" "b \<le> a" "0 < a"
  shows "(k * b) div a \<le> ((k + 1) * b) div a" and "((k + 1) * b) div a \<le> (k * b) div a + 1"
proof -
  have e: "(k + 1) * b = k * b + b" by (simp add: algebra_simps)
  show "(k * b) div a \<le> ((k + 1) * b) div a"
    unfolding e using assms by (intro zdiv_mono1) auto
  have "(k * b + b) div a \<le> (k * b + a) div a"
    using assms by (intro zdiv_mono1) auto
  also have "\<dots> = (k * b) div a + 1" using assms by (simp add: div_add_self2)
  finally show "((k + 1) * b) div a \<le> (k * b) div a + 1" unfolding e .
qed

lemma connected_line_pts:
  assumes "Suc k < length (line_pts x0 y0 x1 y1)"
  shows "\<bar>fst (line_pts x0 y0 x1 y1 ! Suc k) - fst (line_pts x0 y0 x1 y1 ! k)\<bar> \<le> 1 \<and>
         \<bar>snd (line_pts x0 y0 x1 y1 ! Suc k) - snd (line_pts x0 y0 x1 y1 ! k)\<bar> \<le> 1"
proof (rule line_pts_cases[of x1 x0 y1 y0])
  assume point: "x1 = x0" "y1 = y0"
  with assms show ?thesis by (simp add: line_pts_point)
next
  assume shallow: "\<bar>y1 - y0\<bar> \<le> \<bar>x1 - x0\<bar>" "x0 \<noteq> x1"
  define sx :: int where "sx = (if x0 \<le> x1 then 1 else - 1)"
  define sy :: int where "sy = (if y0 \<le> y1 then 1 else - 1)"
  define q where "q j = (j * \<bar>y1 - y0\<bar>) div \<bar>x1 - x0\<bar>" for j :: int
  from assms shallow have k: "Suc k < Suc (nat \<bar>x1 - x0\<bar>)"
    by (simp add: length_line_pts max_def)
  have a: "0 \<le> \<bar>y1 - y0\<bar>" "0 < \<bar>x1 - x0\<bar>" using shallow by auto
  have d: "q (int k) \<le> q (int k + 1)" "q (int k + 1) \<le> q (int k) + 1"
    unfolding q_def by (rule div_step[OF a(1) shallow(1) a(2)])+
  have e: "line_pts x0 y0 x1 y1 ! Suc k = (x0 + sx * (int k + 1), y0 + sy * q (int k + 1))"
    "line_pts x0 y0 x1 y1 ! k = (x0 + sx * int k, y0 + sy * q (int k))"
    using k by (simp_all add: line_pts_shallow[OF shallow] sx_def sy_def q_def add.commute
                         del: upt_Suc)
  have s: "sx = 1 \<or> sx = - 1" "sy = 1 \<or> sy = - 1" by (auto simp: sx_def sy_def)
  show ?thesis unfolding e using s d by auto
next
  assume steep: "\<bar>x1 - x0\<bar> < \<bar>y1 - y0\<bar>"
  define sx :: int where "sx = (if x0 \<le> x1 then 1 else - 1)"
  define sy :: int where "sy = (if y0 \<le> y1 then 1 else - 1)"
  define q where "q j = (j * \<bar>x1 - x0\<bar>) div \<bar>y1 - y0\<bar>" for j :: int
  from assms steep have k: "Suc k < Suc (nat \<bar>y1 - y0\<bar>)"
    by (simp add: length_line_pts max_def)
  have a: "0 \<le> \<bar>x1 - x0\<bar>" "0 < \<bar>y1 - y0\<bar>" "\<bar>x1 - x0\<bar> \<le> \<bar>y1 - y0\<bar>" using steep by auto
  have d: "q (int k) \<le> q (int k + 1)" "q (int k + 1) \<le> q (int k) + 1"
    unfolding q_def by (rule div_step[OF a(1) a(3) a(2)])+
  have e: "line_pts x0 y0 x1 y1 ! Suc k = (x0 + sx * q (int k + 1), y0 + sy * (int k + 1))"
    "line_pts x0 y0 x1 y1 ! k = (x0 + sx * q (int k), y0 + sy * int k)"
    using k by (simp_all add: line_pts_steep[OF steep] sx_def sy_def q_def add.commute
                         del: upt_Suc)
  have s: "sx = 1 \<or> sx = - 1" "sy = 1 \<or> sy = - 1" by (auto simp: sx_def sy_def)
  show ?thesis unfolding e using s d by auto
qed

lemma line_pts_endpoints:
  assumes "x0 \<noteq> x1 \<or> y0 \<noteq> y1"
  shows "hd (line_pts x0 y0 x1 y1) = (x0, y0)" and "last (line_pts x0 y0 x1 y1) = (x1, y1)"
proof -
  have "hd (line_pts x0 y0 x1 y1) = (x0, y0) \<and> last (line_pts x0 y0 x1 y1) = (x1, y1)"
  proof (rule line_pts_cases[of x1 x0 y1 y0])
    assume "x1 = x0" "y1 = y0"
    with assms show ?thesis by simp
  next
    assume shallow: "\<bar>y1 - y0\<bar> \<le> \<bar>x1 - x0\<bar>" "x0 \<noteq> x1"
    show ?thesis
      using shallow
      by (auto simp add: line_pts_shallow[OF shallow] hd_map last_map simp del: upt_Suc)
  next
    assume steep: "\<bar>x1 - x0\<bar> < \<bar>y1 - y0\<bar>"
    show ?thesis
      using steep
      by (auto simp add: line_pts_steep[OF steep] hd_map last_map simp del: upt_Suc)
  qed
  then show "hd (line_pts x0 y0 x1 y1) = (x0, y0)" and "last (line_pts x0 y0 x1 y1) = (x1, y1)"
    by simp_all
qed

lemma line_pts_reverse:
  assumes "x0 \<noteq> x1 \<or> y0 \<noteq> y1"
  shows "line_pts x1 y1 x0 y0 = map (\<lambda>(x, y). (x0 + x1 - x, y0 + y1 - y)) (line_pts x0 y0 x1 y1)"
proof (rule line_pts_cases[of x1 x0 y1 y0])
  assume "x1 = x0" "y1 = y0"
  with assms show ?thesis by simp
next
  assume shallow: "\<bar>y1 - y0\<bar> \<le> \<bar>x1 - x0\<bar>" "x0 \<noteq> x1"
  then have shallow': "\<bar>y0 - y1\<bar> \<le> \<bar>x0 - x1\<bar>" "x1 \<noteq> x0" by auto
  have c: "\<bar>y0 - y1\<bar> = \<bar>y1 - y0\<bar>" "\<bar>x0 - x1\<bar> = \<bar>x1 - x0\<bar>" by auto
  show ?thesis
    unfolding line_pts_shallow[OF shallow] line_pts_shallow[OF shallow'] c
    using shallow by (auto simp del: upt_Suc)
next
  assume steep: "\<bar>x1 - x0\<bar> < \<bar>y1 - y0\<bar>"
  then have steep': "\<bar>x0 - x1\<bar> < \<bar>y0 - y1\<bar>" by auto
  have c: "\<bar>y0 - y1\<bar> = \<bar>y1 - y0\<bar>" "\<bar>x0 - x1\<bar> = \<bar>x1 - x0\<bar>" by auto
  show ?thesis
    unfolding line_pts_steep[OF steep] line_pts_steep[OF steep'] c
    using steep by (auto simp del: upt_Suc)
qed

lemma line_pts_rev_special:
  assumes ne: "x0 \<noteq> x1 \<or> y0 \<noteq> y1"
    and sp: "x0 = x1 \<or> y0 = y1 \<or> \<bar>x1 - x0\<bar> = \<bar>y1 - y0\<bar>"
  shows "line_pts x1 y1 x0 y0 = rev (line_pts x0 y0 x1 y1)"
proof (rule line_pts_cases[of x1 x0 y1 y0])
  assume "x1 = x0" "y1 = y0"
  with ne show ?thesis by simp
next
  assume shallow: "\<bar>y1 - y0\<bar> \<le> \<bar>x1 - x0\<bar>" "x0 \<noteq> x1"
  let ?n = "nat \<bar>x1 - x0\<bar>"
  have len: "length (line_pts x0 y0 x1 y1) = Suc ?n"
    using shallow by (simp add: length_line_pts max_def)
  have len': "length (line_pts x1 y1 x0 y0) = Suc ?n"
    by (simp add: line_pts_reverse[OF ne] len)
  show ?thesis
  proof (rule nth_equalityI)
    show "length (line_pts x1 y1 x0 y0) = length (rev (line_pts x0 y0 x1 y1))"
      by (simp add: len len')
  next
    fix i assume "i < length (line_pts x1 y1 x0 y0)"
    then have i: "i < Suc ?n" by (simp add: len')
    then have j: "?n - i < Suc ?n" and ji: "int (?n - i) = \<bar>x1 - x0\<bar> - int i" by auto
    have q: "int i * \<bar>y1 - y0\<bar> div \<bar>x1 - x0\<bar> = (if y0 = y1 then 0 else int i)"
      "(\<bar>x1 - x0\<bar> - int i) * \<bar>y1 - y0\<bar> div \<bar>x1 - x0\<bar> = (if y0 = y1 then 0 else \<bar>x1 - x0\<bar> - int i)"
      using sp shallow by auto
    have "line_pts x1 y1 x0 y0 ! i = (\<lambda>(x, y). (x0 + x1 - x, y0 + y1 - y)) (line_pts x0 y0 x1 y1 ! i)"
      using i by (simp add: line_pts_reverse[OF ne] len)
    also have "\<dots> = line_pts x0 y0 x1 y1 ! (?n - i)"
      using i j shallow sp unfolding line_pts_shallow[OF shallow]
      by (simp add: ji q del: upt_Suc) (auto simp: algebra_simps)
    also have "\<dots> = rev (line_pts x0 y0 x1 y1) ! i"
      using i by (simp add: rev_nth len)
    finally show "line_pts x1 y1 x0 y0 ! i = rev (line_pts x0 y0 x1 y1) ! i" .
  qed
next
  assume steep: "\<bar>x1 - x0\<bar> < \<bar>y1 - y0\<bar>"
  with sp have x: "x0 = x1" by auto
  let ?n = "nat \<bar>y1 - y0\<bar>"
  have len: "length (line_pts x0 y0 x1 y1) = Suc ?n"
    using steep by (simp add: length_line_pts max_def)
  have len': "length (line_pts x1 y1 x0 y0) = Suc ?n"
    by (simp add: line_pts_reverse[OF ne] len)
  show ?thesis
  proof (rule nth_equalityI)
    show "length (line_pts x1 y1 x0 y0) = length (rev (line_pts x0 y0 x1 y1))"
      by (simp add: len len')
  next
    fix i assume "i < length (line_pts x1 y1 x0 y0)"
    then have i: "i < Suc ?n" by (simp add: len')
    then have j: "?n - i < Suc ?n" and ji: "int (?n - i) = \<bar>y1 - y0\<bar> - int i" by auto
    have "line_pts x1 y1 x0 y0 ! i = (\<lambda>(x, y). (x0 + x1 - x, y0 + y1 - y)) (line_pts x0 y0 x1 y1 ! i)"
      using i by (simp add: line_pts_reverse[OF ne] len)
    also have "\<dots> = line_pts x0 y0 x1 y1 ! (?n - i)"
      using i j steep x unfolding line_pts_steep[OF steep]
      by (simp add: ji del: upt_Suc)
    also have "\<dots> = rev (line_pts x0 y0 x1 y1) ! i"
      using i by (simp add: rev_nth len)
    finally show "line_pts x1 y1 x0 y0 ! i = rev (line_pts x0 y0 x1 y1) ! i" .
  qed
qed

text \<open>Off the axes and the diagonals the two directions of a segment plot different cells.\<close>

lemma div_less_bound:
  fixes a b c :: int
  assumes "0 < c" "a < b * c"
  shows "a div c < b"
proof -
  have "a div c * c \<le> a"
    using assms(1) by (metis div_mult_mod_eq le_add_same_cancel1 pos_mod_sign)
  with assms(2) have "a div c * c < b * c" by linarith
  with assms(1) show ?thesis by (simp add: mult_less_cancel_right)
qed

lemma skew_cell:
  fixes dM dm :: int
  assumes "0 < dm" "dm < dM" "k \<le> dM" "0 \<le> k"
    and "dM - k = 1"
  shows "(k * dm) div dM \<noteq> dm"
proof -
  have "k * dm < dm * dM" using assms by (simp add: algebra_simps)
  with div_less_bound[of dM "k * dm" dm] assms show ?thesis by auto
qed

lemma line_pts_asym_shallow:
  assumes lt: "\<bar>y1 - y0\<bar> < \<bar>x1 - x0\<bar>" and ney: "y0 \<noteq> y1"
  shows "set (line_pts x1 y1 x0 y0) \<noteq> set (line_pts x0 y0 x1 y1)"
proof -
  define sx :: int where "sx = (if x0 \<le> x1 then 1 else - 1)"
  define sy :: int where "sy = (if y0 \<le> y1 then 1 else - 1)"
  define dx where "dx = \<bar>x1 - x0\<bar>"
  define dy where "dy = \<bar>y1 - y0\<bar>"
  from lt ney have shallow: "\<bar>y1 - y0\<bar> \<le> \<bar>x1 - x0\<bar>" "x0 \<noteq> x1" by auto
  then have ne: "x0 \<noteq> x1 \<or> y0 \<noteq> y1" by simp
  have d: "0 < dy" "dy < dx" using lt ney by (auto simp: dx_def dy_def)
  have s: "x1 = x0 + sx * dx" "y1 = y0 + sy * dy" "sx \<noteq> 0" "sy \<noteq> 0"
    by (auto simp: sx_def sy_def dx_def dy_def)
  have fwd: "line_pts x0 y0 x1 y1 =
      map (\<lambda>k. (x0 + sx * int k, y0 + sy * ((int k * dy) div dx))) [0..<Suc (nat dx)]"
    unfolding line_pts_shallow[OF shallow] sx_def sy_def dx_def dy_def ..
  have bwd: "line_pts x1 y1 x0 y0 =
      map (\<lambda>k. (x1 - sx * int k, y1 - sy * ((int k * dy) div dx))) [0..<Suc (nat dx)]"
    unfolding line_pts_reverse[OF ne] fwd by (simp add: comp_def del: upt_Suc)
  have "dy div dx = 0" using d by (simp add: div_pos_pos_trivial)
  then have "(x0 + sx, y0) = (\<lambda>k. (x0 + sx * int k, y0 + sy * ((int k * dy) div dx))) 1"
    by simp
  moreover have "1 \<in> set [0..<Suc (nat dx)]" using d by auto
  ultimately have 1: "(x0 + sx, y0) \<in> set (line_pts x0 y0 x1 y1)"
    unfolding fwd set_map by (rule image_eqI)
  have 2: "(x0 + sx, y0) \<notin> set (line_pts x1 y1 x0 y0)"
  proof
    assume "(x0 + sx, y0) \<in> set (line_pts x1 y1 x0 y0)"
    then obtain k where k: "k < Suc (nat dx)"
      and e: "x0 + sx = x1 - sx * int k" "y0 = y1 - sy * ((int k * dy) div dx)"
      unfolding bwd by (auto simp del: upt_Suc)
    from e(1) s(1) have "sx * (dx - int k) = sx * 1" by (simp only: right_diff_distrib)
    with s(3) have k1: "dx - int k = 1" by (simp only: mult_cancel_left) simp
    from e(2) s(2) have "sy * ((int k * dy) div dx) = sy * dy" by linarith
    with s(4) have "(int k * dy) div dx = dy" by (simp only: mult_cancel_left) simp
    moreover have "(int k * dy) div dx \<noteq> dy"
      using k d k1 by (intro skew_cell) auto
    ultimately show False by simp
  qed
  from 1 2 show ?thesis by auto
qed


lemma line_pts_asym_steep:
  assumes lt: "\<bar>x1 - x0\<bar> < \<bar>y1 - y0\<bar>" and nex: "x0 \<noteq> x1"
  shows "set (line_pts x1 y1 x0 y0) \<noteq> set (line_pts x0 y0 x1 y1)"
proof -
  define sx :: int where "sx = (if x0 \<le> x1 then 1 else - 1)"
  define sy :: int where "sy = (if y0 \<le> y1 then 1 else - 1)"
  define dx where "dx = \<bar>x1 - x0\<bar>"
  define dy where "dy = \<bar>y1 - y0\<bar>"
  from nex have ne: "x0 \<noteq> x1 \<or> y0 \<noteq> y1" by simp
  have d: "0 < dx" "dx < dy" using lt nex by (auto simp: dx_def dy_def)
  have s: "x1 = x0 + sx * dx" "y1 = y0 + sy * dy" "sx \<noteq> 0" "sy \<noteq> 0"
    by (auto simp: sx_def sy_def dx_def dy_def)
  have fwd: "line_pts x0 y0 x1 y1 =
      map (\<lambda>k. (x0 + sx * ((int k * dx) div dy), y0 + sy * int k)) [0..<Suc (nat dy)]"
    unfolding line_pts_steep[OF lt] sx_def sy_def dx_def dy_def ..
  have bwd: "line_pts x1 y1 x0 y0 =
      map (\<lambda>k. (x1 - sx * ((int k * dx) div dy), y1 - sy * int k)) [0..<Suc (nat dy)]"
    unfolding line_pts_reverse[OF ne] fwd by (simp add: comp_def del: upt_Suc)
  have "dx div dy = 0" using d by (simp add: div_pos_pos_trivial)
  then have "(x0, y0 + sy) = (\<lambda>k. (x0 + sx * ((int k * dx) div dy), y0 + sy * int k)) 1"
    by simp
  moreover have "1 \<in> set [0..<Suc (nat dy)]" using d by auto
  ultimately have 1: "(x0, y0 + sy) \<in> set (line_pts x0 y0 x1 y1)"
    unfolding fwd set_map by (rule image_eqI)
  have 2: "(x0, y0 + sy) \<notin> set (line_pts x1 y1 x0 y0)"
  proof
    assume "(x0, y0 + sy) \<in> set (line_pts x1 y1 x0 y0)"
    then obtain k where k: "k < Suc (nat dy)"
      and e: "y0 + sy = y1 - sy * int k" "x0 = x1 - sx * ((int k * dx) div dy)"
      unfolding bwd by (auto simp del: upt_Suc)
    from e(1) s(2) have "sy * (dy - int k) = sy * 1" by (simp only: right_diff_distrib)
    with s(4) have k1: "dy - int k = 1" by (simp only: mult_cancel_left) simp
    from e(2) s(1) have "sx * ((int k * dx) div dy) = sx * dx" by linarith
    with s(3) have "(int k * dx) div dy = dx" by (simp only: mult_cancel_left) simp
    moreover have "(int k * dx) div dy \<noteq> dx"
      using k d k1 by (intro skew_cell) auto
    ultimately show False by simp
  qed
  from 1 2 show ?thesis by auto
qed

lemma line_pts_symmetric_iff:
  "set (line_pts x1 y1 x0 y0) = set (line_pts x0 y0 x1 y1) \<longleftrightarrow>
     x0 = x1 \<or> y0 = y1 \<or> \<bar>x1 - x0\<bar> = \<bar>y1 - y0\<bar>"
proof (cases "x0 = x1 \<or> y0 = y1 \<or> \<bar>x1 - x0\<bar> = \<bar>y1 - y0\<bar>")
  case sp: True
  show ?thesis
  proof (cases "x0 = x1 \<and> y0 = y1")
    case True
    then show ?thesis by simp
  next
    case False
    then have "x0 \<noteq> x1 \<or> y0 \<noteq> y1" by simp
    from line_pts_rev_special[OF this sp] sp show ?thesis by simp
  qed
next
  case False
  then have *: "x0 \<noteq> x1" "y0 \<noteq> y1" "\<bar>x1 - x0\<bar> \<noteq> \<bar>y1 - y0\<bar>" by simp_all
  have "set (line_pts x1 y1 x0 y0) \<noteq> set (line_pts x0 y0 x1 y1)"
  proof (cases "\<bar>y1 - y0\<bar> < \<bar>x1 - x0\<bar>")
    case True
    then show ?thesis using *(2) by (rule line_pts_asym_shallow)
  next
    case False
    with *(3) have "\<bar>x1 - x0\<bar> < \<bar>y1 - y0\<bar>" by simp
    then show ?thesis using *(1) by (rule line_pts_asym_steep)
  qed
  with False show ?thesis by simp
qed

lemma draw_line_endpoints:
  "line_in_range x0 y0 x1 y1 \<Longrightarrow> x0 \<noteq> x1 \<or> y0 \<noteq> y1 \<Longrightarrow>
     map_option (hd \<circ> plotted s) (draw_line x0 y0 x1 y1 ch s) = Some (x0, y0) \<and>
     map_option (last \<circ> plotted s) (draw_line x0 y0 x1 y1 ch s) = Some (x1, y1)"
  by (simp add: plotted_def draw_line_closed cells_line_events line_pts_endpoints)

section \<open>The recursion of \<^verbatim>\<open>draw_sierpinski\<close>\<close>

text \<open>
  C division by two against the floor and the ceiling of the mean, and the midpoints of
  a triangle inside a rectangle that is in range.
\<close>

lemma sdiv_2: "(k :: int) sdiv 2 = (if 0 \<le> k then k div 2 else - ((- k) div 2))"
  by (simp add: signed_divide_int_def sgn_if)

lemma c_midpoint: "b + (a - b) sdiv 2 = (if b \<le> a then floor_mean a b else ceil_mean a b)"
proof (cases "b \<le> a")
  case True
  have "(a + b) div 2 = (a - b + 2 * b) div 2" by simp
  also have "\<dots> = b + (a - b) div 2" by simp
  finally show ?thesis using True by (simp add: sdiv_2 floor_mean_def)
next
  case False
  have "(- (a + b)) div 2 = (b - a + 2 * (- b)) div 2" by simp
  also have "\<dots> = - b + (b - a) div 2" by simp
  finally show ?thesis using False by (simp add: sdiv_2 ceil_mean_def)
qed

lemma sdiv_2_between: "min 0 k \<le> k sdiv 2 \<and> k sdiv 2 \<le> max 0 (k :: int)"
proof (cases "0 \<le> k")
  case True
  have "k = 2 * (k div 2) + k mod 2" "0 \<le> k mod 2" "k mod 2 < 2" by simp_all
  with True show ?thesis unfolding sdiv_2 by (simp add: min_def max_def)
next
  case False
  have "- k = 2 * ((- k) div 2) + (- k) mod 2" "0 \<le> (- k) mod 2" "(- k) mod 2 < 2" by simp_all
  with False show ?thesis unfolding sdiv_2 by (simp add: min_def max_def)
qed

lemma half_way_in_span:
  assumes "span_ok lo hi" "lo \<le> a" "a \<le> hi" "lo \<le> b" "b \<le> hi"
  shows "half_way b a = Some (b + (a - b) sdiv 2)"
    and "lo \<le> b + (a - b) sdiv 2" and "b + (a - b) sdiv 2 \<le> hi"
proof -
  from sdiv_2_between[of "a - b"] assms
  show m: "lo \<le> b + (a - b) sdiv 2" "b + (a - b) sdiv 2 \<le> hi"
    by (simp_all add: min_def max_def split: if_splits)
  from assms have "int_sub a b = Some (a - b)"
    by (simp add: int_sub_def span_ok_def INT_MIN_MAX)
  moreover from m assms have "int_add b ((a - b) sdiv 2) = Some (b + (a - b) sdiv 2)"
    by (simp add: int_add_def span_ok_def INT_MIN_MAX)
  ultimately show "half_way b a = Some (b + (a - b) sdiv 2)"
    by (simp add: half_way_def)
qed

lemma line_in_box:
  assumes "span_ok xl xh" "span_ok yl yh" "in_box xl xh yl yh x0 y0" "in_box xl xh yl yh x1 y1"
  shows "line_in_range x0 y0 x1 y1"
  using assms by (auto simp: line_in_range_def span_ok_def in_box_def min_def max_def)

lemma triangle_in_box:
  assumes "triangle_in_range ax ay bx by' cx cy"
  obtains xl xh yl yh where "span_ok xl xh" "span_ok yl yh" "in_box xl xh yl yh ax ay"
    "in_box xl xh yl yh bx by'" "in_box xl xh yl yh cx cy"
proof
  show "span_ok (min ax (min bx cx)) (max ax (max bx cx))"
    "span_ok (min ay (min by' cy)) (max ay (max by' cy))"
    using assms by (simp_all add: triangle_in_range_def)
qed (simp_all add: in_box_def min_le_iff_disj le_max_iff_disj)

lemma draw_sierpinski_trace:
  assumes sx: "span_ok xl xh" and sy: "span_ok yl yh"
  shows "in_box xl xh yl yh ax ay \<Longrightarrow> in_box xl xh yl yh bx by' \<Longrightarrow>
     in_box xl xh yl yh cx cy \<Longrightarrow> int n \<le> INT_MAX \<Longrightarrow>
     draw_sierpinski c ax ay bx by' cx cy (int n) s =
       Some (s @ sierpinski_trace c ax ay bx by' cx cy n)"
proof (induction n arbitrary: ax ay bx by' cx cy s)
  case 0
  show ?case by (subst draw_sierpinski.simps) simp
next
  case (Suc n)
  note A = Suc.prems(1) and B = Suc.prems(2) and C = Suc.prems(3)
  from A B C have c: "xl \<le> ax" "ax \<le> xh" "yl \<le> ay" "ay \<le> yh"
    "xl \<le> bx" "bx \<le> xh" "yl \<le> by'" "by' \<le> yh"
    "xl \<le> cx" "cx \<le> xh" "yl \<le> cy" "cy \<le> yh"
    by (simp_all add: in_box_def)
  note mabx = half_way_in_span[OF sx c(1,2,5,6)]
  note maby = half_way_in_span[OF sy c(7,8,3,4)]
  note macx = half_way_in_span[OF sx c(9,10,1,2)]
  note macy = half_way_in_span[OF sy c(11,12,3,4)]
  note h = mabx(1) maby(1) macx(1) macy(1)
  have nz: "int (Suc n) \<noteq> 0" by simp
  have dd: "int_sub (int (Suc n)) 1 = Some (int n)"
    using Suc.prems(4) by (simp add: int_sub_def INT_MIN_MAX)
  have n: "int n \<le> INT_MAX" using Suc.prems(4) by simp
  have MAB: "in_box xl xh yl yh (bx + (ax - bx) sdiv 2) (ay + (by' - ay) sdiv 2)"
    and MAC: "in_box xl xh yl yh (ax + (cx - ax) sdiv 2) (ay + (cy - ay) sdiv 2)"
    and P: "in_box xl xh yl yh ax by'"
    using mabx(2,3) maby(2,3) macx(2,3) macy(2,3) c by (simp_all add: in_box_def)
  note ih = Suc.IH[OF MAB B P n] Suc.IH[OF MAC P C n] Suc.IH[OF A MAB MAC n]
  have l: "draw_line ax ay bx by' c t = Some (t @ line_events ax ay bx by' c)"
    "draw_line bx by' cx cy c t = Some (t @ line_events bx by' cx cy c)"
    "draw_line cx cy ax ay c t = Some (t @ line_events cx cy ax ay c)" for t
    by (intro draw_line_closed line_in_box[OF sx sy] A B C)+
  show ?case 
    by (subst draw_sierpinski.simps)
       (simp only: nz if_False h dd ih l bind.bind_lunit sierpinski_trace.simps append_assoc)
qed

lemma draw_sierpinski_bounded_trace:
  assumes sx: "span_ok xl xh" and sy: "span_ok yl yh"
  shows "in_box xl xh yl yh ax ay \<Longrightarrow> in_box xl xh yl yh bx by' \<Longrightarrow>
     in_box xl xh yl yh cx cy \<Longrightarrow> int n \<le> INT_MAX \<Longrightarrow> n < fuel \<Longrightarrow>
     draw_sierpinski_bounded fuel c ax ay bx by' cx cy (int n) s =
       Some (s @ sierpinski_trace c ax ay bx by' cx cy n)"
proof (induction n arbitrary: ax ay bx by' cx cy s fuel)
  case 0
  then obtain f where "fuel = Suc f" by (cases fuel) auto
  then show ?case by simp
next
  case (Suc n)
  from Suc.prems(5) obtain f where f: "fuel = Suc f" "n < f" by (cases fuel) auto
  note A = Suc.prems(1) and B = Suc.prems(2) and C = Suc.prems(3)
  from A B C have c: "xl \<le> ax" "ax \<le> xh" "yl \<le> ay" "ay \<le> yh"
    "xl \<le> bx" "bx \<le> xh" "yl \<le> by'" "by' \<le> yh"
    "xl \<le> cx" "cx \<le> xh" "yl \<le> cy" "cy \<le> yh"
    by (simp_all add: in_box_def)
  note mabx = half_way_in_span[OF sx c(1,2,5,6)]
  note maby = half_way_in_span[OF sy c(7,8,3,4)]
  note macx = half_way_in_span[OF sx c(9,10,1,2)]
  note macy = half_way_in_span[OF sy c(11,12,3,4)]
  note h = mabx(1) maby(1) macx(1) macy(1)
  have nz: "int (Suc n) \<noteq> 0" by simp
  have dd: "int_sub (int (Suc n)) 1 = Some (int n)"
    using Suc.prems(4) by (simp add: int_sub_def INT_MIN_MAX)
  have n: "int n \<le> INT_MAX" using Suc.prems(4) by simp
  have MAB: "in_box xl xh yl yh (bx + (ax - bx) sdiv 2) (ay + (by' - ay) sdiv 2)"
    and MAC: "in_box xl xh yl yh (ax + (cx - ax) sdiv 2) (ay + (cy - ay) sdiv 2)"
    and P: "in_box xl xh yl yh ax by'"
    using mabx(2,3) maby(2,3) macx(2,3) macy(2,3) c by (simp_all add: in_box_def)
  note ih = Suc.IH[OF MAB B P n f(2)] Suc.IH[OF MAC P C n f(2)] Suc.IH[OF A MAB MAC n f(2)]
  have l: "draw_line ax ay bx by' c t = Some (t @ line_events ax ay bx by' c)"
    "draw_line bx by' cx cy c t = Some (t @ line_events bx by' cx cy c)"
    "draw_line cx cy ax ay c t = Some (t @ line_events cx cy ax ay c)" for t
    by (intro draw_line_closed line_in_box[OF sx sy] A B C)+
  show ?case unfolding f(1)
    by (simp only: draw_sierpinski_bounded.simps nz if_False h dd ih l bind.bind_lunit
          sierpinski_trace.simps append_assoc)
qed

lemma draw_sierpinski_bounded_exhausted:
  "fuel \<le> n \<Longrightarrow> draw_sierpinski_bounded fuel c ax ay bx by' cx cy (int n) s = None"
proof (induction fuel arbitrary: n ax ay bx by' cx cy s)
  case 0
  show ?case by simp
next
  case (Suc f)
  then obtain m where m: "n = Suc m" "f \<le> m" by (cases n) auto
  have nz: "int (Suc m) \<noteq> 0" by simp
  have d: "int_sub (int (Suc m)) 1 = None \<or> int_sub (int (Suc m)) 1 = Some (int m)"
    by (simp add: int_sub_def)
  show ?case
  proof (cases "half_way bx ax")
    case None
    then show ?thesis unfolding m(1)
      by (simp only: draw_sierpinski_bounded.simps nz if_False bind.bind_lzero)
  next
    case x: (Some x)
    show ?thesis
    proof (cases "half_way ay by'")
      case None
      then show ?thesis unfolding m(1)
        by (simp only: draw_sierpinski_bounded.simps nz if_False x bind.bind_lunit bind.bind_lzero)
    next
      case y: (Some y)
      from d show ?thesis
      proof
        assume "int_sub (int (Suc m)) 1 = None"
        then show ?thesis unfolding m(1)
          by (simp only: draw_sierpinski_bounded.simps nz if_False x y bind.bind_lunit
                bind.bind_lzero)
      next
        assume "int_sub (int (Suc m)) 1 = Some (int m)"
        then show ?thesis unfolding m(1)
          by (simp only: draw_sierpinski_bounded.simps nz if_False x y bind.bind_lunit
                Suc.IH[OF m(2)] bind.bind_lzero)
      qed
    qed
  qed
qed

lemma draw_sierpinski_returns_nonneg:
  assumes ret: "draw_sierpinski c ax ay bx by' cx cy depth s = Some s'"
  shows "0 \<le> depth"
proof (rule draw_sierpinski.raw_induct
    [where P = "\<lambda>c ax ay bx by' cx cy depth s s'. 0 \<le> (depth :: int)", OF _ ret], goal_cases)
  case (1 ds c ax ay bx by' cx cy depth s s')
  show ?case
  proof (cases "depth = 0")
    case True
    then show ?thesis by simp
  next
    case False
    with 1(2) obtain x y d s1 where d: "int_sub depth 1 = Some d"
      and "ds c x y bx by' ax by' d s = Some s1"
      by (auto simp: bind_eq_Some_conv)
    from 1(1)[OF this(2)] have "0 \<le> d" .
    with d show ?thesis by (auto simp: int_sub_def split: if_splits)
  qed
qed

lemma draw_sierpinski_negative:
  "depth < 0 \<Longrightarrow> draw_sierpinski c ax ay bx by' cx cy depth s = None"
  using draw_sierpinski_returns_nonneg[of c ax ay bx by' cx cy depth s]
  by (cases "draw_sierpinski c ax ay bx by' cx cy depth s") auto

lemma draw_sierpinski_returns:
  assumes "triangle_in_range ax ay bx by' cx cy" "0 \<le> depth" "depth \<le> INT_MAX"
  shows "draw_sierpinski c ax ay bx by' cx cy depth s =
     Some (s @ sierpinski_trace c ax ay bx by' cx cy (nat depth))"
proof -
  from assms(1) obtain xl xh yl yh where b: "span_ok xl xh" "span_ok yl yh"
    "in_box xl xh yl yh ax ay" "in_box xl xh yl yh bx by'" "in_box xl xh yl yh cx cy"
    by (rule triangle_in_box)
  from draw_sierpinski_trace[OF b, of "nat depth" c s] assms(2,3) show ?thesis by simp
qed

lemma draw_sierpinski_bounded_returns:
  assumes "triangle_in_range ax ay bx by' cx cy" "0 \<le> depth" "depth \<le> INT_MAX"
    "nat depth < fuel"
  shows "draw_sierpinski_bounded fuel c ax ay bx by' cx cy depth s =
     Some (s @ sierpinski_trace c ax ay bx by' cx cy (nat depth))"
proof -
  from assms(1) obtain xl xh yl yh where b: "span_ok xl xh" "span_ok yl yh"
    "in_box xl xh yl yh ax ay" "in_box xl xh yl yh bx by'" "in_box xl xh yl yh cx cy"
    by (rule triangle_in_box)
  from draw_sierpinski_bounded_trace[OF b, of "nat depth" fuel c s] assms(2,3,4)
  show ?thesis by simp
qed

lemma edges_drawn_append: "edges_drawn (a @ b) = edges_drawn a + edges_drawn b"
  by (induction a rule: edges_drawn.induct) simp_all

lemma cells_append: "cells (a @ b) = cells a @ cells b"
  by (induction a rule: cells.induct) simp_all

lemma plot_calls_append: "plot_calls (a @ b) = plot_calls a + plot_calls b"
  by (simp add: plot_calls_def cells_append)

lemma edges_drawn_plots: "edges_drawn (map (\<lambda>(x, y). Mvaddch y x ch) ps) = 0"
  by (induction ps) auto

lemma edges_drawn_line_events: "edges_drawn (line_events x0 y0 x1 y1 ch) = 1"
  by (simp add: line_events_def edges_drawn_plots)

lemma plot_calls_line_events:
  "plot_calls (line_events x0 y0 x1 y1 ch) = nat (max \<bar>x1 - x0\<bar> \<bar>y1 - y0\<bar>) + 1"
  by (simp add: plot_calls_def cells_line_events length_line_pts)

lemma edges_drawn_sierpinski_trace:
  "2 * edges_drawn (sierpinski_trace c ax ay bx by' cx cy n) + 3 = 3 * 3 ^ n"
proof (induction n arbitrary: ax ay bx by' cx cy)
  case 0
  show ?case by simp
next
  case (Suc n)
  let ?l = "edges_drawn (sierpinski_trace c (bx + (ax - bx) sdiv 2) (ay + (by' - ay) sdiv 2)
              bx by' ax by' n)"
  let ?r = "edges_drawn (sierpinski_trace c (ax + (cx - ax) sdiv 2) (ay + (cy - ay) sdiv 2)
              ax by' cx cy n)"
  let ?u = "edges_drawn (sierpinski_trace c ax ay (bx + (ax - bx) sdiv 2)
              (ay + (by' - ay) sdiv 2) (ax + (cx - ax) sdiv 2) (ay + (cy - ay) sdiv 2) n)"
  have "2 * ?l + 3 = 3 * 3 ^ n" "2 * ?r + 3 = 3 * 3 ^ n" "2 * ?u + 3 = 3 * 3 ^ n"
    by (rule Suc.IH)+
  moreover have "edges_drawn (sierpinski_trace c ax ay bx by' cx cy (Suc n)) = ?l + ?r + ?u + 3"
    by (simp add: edges_drawn_append edges_drawn_line_events)
  ultimately show ?case by simp
qed

lemma edges_drawn_sierpinski_trace_eq:
  "edges_drawn (sierpinski_trace c ax ay bx by' cx cy n) = 3 * (3 ^ n - 1) div 2"
proof -
  have "3 * (3 ^ n - 1) = 2 * edges_drawn (sierpinski_trace c ax ay bx by' cx cy n)"
    using edges_drawn_sierpinski_trace[of c ax ay bx by' cx cy n]
    by (simp add: diff_mult_distrib2)
  then show ?thesis by simp
qed

lemma plot_calls_sierpinski_trace_mono:
  "plot_calls (sierpinski_trace c ax ay bx by' cx cy n)
     < plot_calls (sierpinski_trace c ax ay bx by' cx cy (Suc n))"
proof (induction n arbitrary: ax ay bx by' cx cy)
  case 0
  show ?case by (simp add: plot_calls_append plot_calls_line_events) (simp add: plot_calls_def)
next
  case (Suc n)
  show ?case
    unfolding sierpinski_trace.simps(2)[of c ax ay bx by' cx cy "Suc n"]
      sierpinski_trace.simps(2)[of c ax ay bx by' cx cy n] plot_calls_append
    by (intro add_less_le_mono add_strict_mono Suc.IH order_refl)
qed

lemma draw_sierpinski_zero: "draw_sierpinski c ax ay bx by' cx cy 0 s = Some s"
  by (subst draw_sierpinski.simps) simp

section \<open>The claims\<close>

text \<open>
  The theorems below are about inputs on which the code does not overflow:
  \<open>line_in_range\<close> for a segment, \<open>triangle_in_range\<close> and a depth of at most \<open>INT_MAX\<close>
  for a triangle. Outside them a call can run into signed overflow, as the
  counterexamples at the ends of the range show.
\<close>

subsection \<open>The rasterizer\<close>

text \<open>
  C1, as amended. For a segment in range, drawing it from its other end plots, cell by
  cell, the point reflection of the cells through the middle of the segment (for
  distinct endpoints); the two directions cover the same set of cells exactly when the
  segment is horizontal, vertical or diagonal, or a single point.
\<close>

theorem draw_line_reversed:
  "line_in_range x0 y0 x1 y1 \<Longrightarrow>
     \<exists>fw bw. map_option (plotted s) (draw_line x0 y0 x1 y1 ch s) = Some fw \<and>
       map_option (plotted s) (draw_line x1 y1 x0 y0 ch s) = Some bw \<and>
       (x0 \<noteq> x1 \<or> y0 \<noteq> y1 \<longrightarrow> bw = map (\<lambda>(x, y). (x0 + x1 - x, y0 + y1 - y)) fw) \<and>
       (set bw = set fw \<longleftrightarrow> x0 = x1 \<or> y0 = y1 \<or> \<bar>x1 - x0\<bar> = \<bar>y1 - y0\<bar>)"
  using line_pts_reverse[of x0 x1 y0 y1] line_pts_symmetric_iff[of x1 y1 x0 y0]
  by (simp add: plotted_draw_line line_in_range_commute)

text \<open>
  C1, witness: the segment from \<open>(0, 0)\<close> to \<open>(2, 1)\<close> and the diagonal from \<open>(0, 0)\<close>
  to \<open>(3, 3)\<close>.
\<close>

theorem draw_line_reversed_witness:
  "line_in_range 0 0 2 1 \<and> (0 :: int, 0 :: int) \<noteq> (2, 1) \<and>
   draw_line 0 0 2 1 (CHR ''#'') [] \<noteq> None \<and>
   map_option (plotted []) (draw_line 2 1 0 0 (CHR ''#'') []) =
     map_option (map (\<lambda>(x, y). (0 + 2 - x, 0 + 1 - y)) \<circ> plotted [])
       (draw_line 0 0 2 1 (CHR ''#'') []) \<and>
   line_in_range 0 0 3 3 \<and>
   draw_line 0 0 3 3 (CHR ''#'') [] \<noteq> None \<and>
   map_option (set \<circ> plotted []) (draw_line 3 3 0 0 (CHR ''#'') []) =
     map_option (set \<circ> plotted []) (draw_line 0 0 3 3 (CHR ''#'') [])"
proof -
  have r1: "line_in_range 0 0 2 1" and r2: "line_in_range 0 0 3 3"
    by (simp_all add: line_in_range_def span_ok_def INT_MAX_def INT_MIN_def)
  from draw_line_reversed[OF r1, of "[]" "CHR ''#''"] draw_line_reversed[OF r2, of "[]" "CHR ''#''"]
  show ?thesis using r1 r2 by auto
qed

text \<open>
  C1 as stated (both directions cover the same set of cells) fails between \<open>(0, 0)\<close> and
  \<open>(2, 1)\<close>: one direction plots \<open>(1, 0)\<close>, the other \<open>(1, 1)\<close>.
\<close>

theorem draw_line_not_symmetric:
  "map_option (set \<circ> plotted []) (draw_line 0 0 2 1 (CHR ''#'') []) \<noteq>
   map_option (set \<circ> plotted []) (draw_line 2 1 0 0 (CHR ''#'') [])"
proof -
  have a: "map_option (set \<circ> plotted []) (draw_line 0 0 2 1 (CHR ''#'') []) =
      Some {(0, 0), (1, 0), (2, 1)}"
    by (simp add: plotted_def draw_line_def loop_xinc_yinc.simps mvaddch_def
          int_add_def int_sub_def INT_MAX_def INT_MIN_def)
  have b: "map_option (set \<circ> plotted []) (draw_line 2 1 0 0 (CHR ''#'') []) =
      Some {(2, 1), (1, 1), (0, 0)}"
    by (simp add: plotted_def draw_line_def loop_xdec_ydec.simps mvaddch_def
          int_add_def int_sub_def INT_MAX_def INT_MIN_def)
  have c: "{(0, 0), (1, 0), (2, 1)} \<noteq> {(2, 1), (1, 1), (0, 0 :: int) :: int \<times> int}"
  proof
    assume "{(0, 0), (1, 0), (2, 1)} = {(2, 1), (1, 1), (0, 0 :: int) :: int \<times> int}"
    then have "((1, 0) :: int \<times> int) \<in> {(2, 1), (1, 1), (0, 0)}" by blast
    then show False by simp
  qed
  show ?thesis unfolding a b using c by simp
qed

text \<open>
  C2 says that a segment whose endpoints coincide plots exactly that point. The code
  plots one cell, but the cell below it: \<^verbatim>\<open>dec\<close> starts at \<open>dx = 0\<close>, so the first
  iteration already takes the \<^verbatim>\<open>dec <= 0\<close> branch and steps \<open>y0\<close>. At \<open>(3, 4)\<close>:
\<close>

theorem draw_line_same_point:
  "map_option (plotted []) (draw_line 3 4 3 4 (CHR ''#'') []) = Some [(3, 5)]"
  by (simp add: plotted_def draw_line_def loop_xinc_yinc.simps mvaddch_def
        int_add_def int_sub_def INT_MAX_def INT_MIN_def)

text \<open>
  C4 says that the first plotted cell is \<open>p0\<close> and the last is \<open>p1\<close>. That holds for
  distinct endpoints in range (\<open>draw_line_endpoints\<close>) and fails when they coincide, by
  the defect of C2. At \<open>(0, 0)\<close>:
\<close>

theorem zero_length_line_first_last:
  "map_option (hd \<circ> plotted []) (draw_line 0 0 0 0 (CHR ''#'') []) = Some (0, 1) \<and>
   map_option (last \<circ> plotted []) (draw_line 0 0 0 0 (CHR ''#'') []) = Some (0, 1)"
  by (simp add: plotted_def draw_line_def loop_xinc_yinc.simps mvaddch_def
        int_add_def int_sub_def INT_MAX_def INT_MIN_def)

text \<open>
  C7, as amended. For a segment in range the call returns, and consecutive plotted cells
  differ by at most one in each coordinate.
\<close>

theorem draw_line_connected:
  "line_in_range x0 y0 x1 y1 \<Longrightarrow>
     \<exists>cs. map_option (plotted s) (draw_line x0 y0 x1 y1 ch s) = Some cs \<and>
       (\<forall>k. Suc k < length cs \<longrightarrow>
          \<bar>fst (cs ! Suc k) - fst (cs ! k)\<bar> \<le> 1 \<and> \<bar>snd (cs ! Suc k) - snd (cs ! k)\<bar> \<le> 1)"
  using connected_line_pts[of _ x0 y0 x1 y1] by (simp add: plotted_draw_line)

text \<open>
  C7, witness: the step from the third to the fourth cell of the segment from
  \<open>(0, 0)\<close> to \<open>(5, 2)\<close>, where \<open>y\<close> changes.
\<close>

theorem draw_line_connected_witness:
  "line_in_range 0 0 5 2 \<and>
   (\<exists>cs. map_option (plotted []) (draw_line 0 0 5 2 (CHR ''#'') []) = Some cs \<and>
      Suc 2 < length cs \<and>
      \<bar>fst (cs ! Suc 2) - fst (cs ! 2)\<bar> \<le> 1 \<and> \<bar>snd (cs ! Suc 2) - snd (cs ! 2)\<bar> \<le> 1)"
proof -
  have r: "line_in_range 0 0 5 2"
    by (simp add: line_in_range_def span_ok_def INT_MAX_def INT_MIN_def)
  from draw_line_connected[OF r, of "[]" "CHR ''#''"] obtain cs where
    cs: "map_option (plotted []) (draw_line 0 0 5 2 (CHR ''#'') []) = Some cs"
    and st: "\<forall>k. Suc k < length cs \<longrightarrow>
          \<bar>fst (cs ! Suc k) - fst (cs ! k)\<bar> \<le> 1 \<and> \<bar>snd (cs ! Suc k) - snd (cs ! k)\<bar> \<le> 1"
    by blast
  from cs have "cs = line_pts 0 0 5 2" by (simp add: plotted_draw_line[OF r])
  then have "Suc 2 < length cs" by (simp add: length_line_pts)
  with r cs st show ?thesis by blast
qed

text \<open>
  C7 as stated (for every pair of points) fails for a segment that ends at \<open>x = INT_MIN\<close>:
  after the plot at \<open>INT_MIN\<close> the loop's \<^verbatim>\<open>x0--\<close> overflows, and the call has no result.
\<close>

theorem draw_line_overflow_at_INT_MIN:
  "draw_line (- 2147483647) 0 (- 2147483648) 0 (CHR ''#'') [] = None"
  by (simp add: draw_line_def loop_xdec_yinc.simps mvaddch_def
        int_add_def int_sub_def INT_MAX_def INT_MIN_def)

text \<open>
  C10, as amended. For a segment in range a call plots \<open>max(|x1 - x0|, |y1 - y0|) + 1\<close>
  cells, all of them distinct.
\<close>

theorem draw_line_plot_count:
  "line_in_range x0 y0 x1 y1 \<Longrightarrow>
     \<exists>cs. map_option (plotted s) (draw_line x0 y0 x1 y1 ch s) = Some cs \<and>
       length cs = nat (max \<bar>x1 - x0\<bar> \<bar>y1 - y0\<bar>) + 1 \<and> distinct cs"
  by (simp add: plotted_draw_line length_line_pts distinct_line_pts)

text \<open>
  C10, witness: six cells from \<open>(0, 0)\<close> to \<open>(5, 2)\<close>.
\<close>

theorem draw_line_plot_count_witness:
  "line_in_range 0 0 5 2 \<and>
   (\<exists>cs. map_option (plotted []) (draw_line 0 0 5 2 (CHR ''#'') []) = Some cs \<and>
      length cs = 6 \<and> distinct cs)"
proof -
  have r: "line_in_range 0 0 5 2"
    by (simp add: line_in_range_def span_ok_def INT_MAX_def INT_MIN_def)
  from draw_line_plot_count[OF r, of "[]" "CHR ''#''"] r show ?thesis by simp
qed

text \<open>
  C10 as stated (for every pair of points) fails for a segment that ends at
  \<open>x = INT_MAX\<close>: after the second plot the loop's \<^verbatim>\<open>x0++\<close> overflows, and the call does
  not return with two plots.
\<close>

theorem draw_line_overflow_at_INT_MAX:
  "draw_line 2147483646 0 2147483647 0 (CHR ''#'') [] = None"
  by (simp add: draw_line_def loop_xinc_yinc.simps mvaddch_def
        int_add_def int_sub_def INT_MAX_def INT_MIN_def)

subsection \<open>The generator\<close>

text \<open>
  C3, as amended. For a triangle in range and a depth from 0 to \<open>INT_MAX\<close> the call
  returns, and its recursion nests exactly \<open>depth\<close> levels: on a stack of \<open>n\<close> frames it
  returns if and only if \<open>depth < n\<close>.
\<close>

theorem draw_sierpinski_terminates:
  "triangle_in_range ax ay bx by' cx cy \<Longrightarrow> 0 \<le> depth \<Longrightarrow> depth \<le> INT_MAX \<Longrightarrow>
     draw_sierpinski c ax ay bx by' cx cy depth s \<noteq> None \<and>
     (\<forall>n. draw_sierpinski_bounded n c ax ay bx by' cx cy depth s =
        (if nat depth < n then draw_sierpinski c ax ay bx by' cx cy depth s else None))"
  using draw_sierpinski_bounded_exhausted[of _ "nat depth" c ax ay bx by' cx cy s]
  by (simp add: draw_sierpinski_returns draw_sierpinski_bounded_returns)

text \<open>
  C3, witness: depth 1 needs two frames.
\<close>

theorem draw_sierpinski_terminates_witness:
  "triangle_in_range 0 50 25 0 50 50 \<and> (0::int) \<le> 1 \<and> (1::int) \<le> INT_MAX \<and>
   draw_sierpinski (CHR ''#'') 0 50 25 0 50 50 1 [] \<noteq> None \<and>
   draw_sierpinski_bounded 2 (CHR ''#'') 0 50 25 0 50 50 1 [] =
     draw_sierpinski (CHR ''#'') 0 50 25 0 50 50 1 [] \<and>
   draw_sierpinski_bounded 1 (CHR ''#'') 0 50 25 0 50 50 1 [] = None"
proof -
  have r: "triangle_in_range 0 50 25 0 50 50" and d: "(0::int) \<le> 1" "(1::int) \<le> INT_MAX"
    by (simp_all add: triangle_in_range_def span_ok_def INT_MAX_def INT_MIN_def)
  from draw_sierpinski_terminates[OF r d, of "CHR ''#''" "[]"] r d show ?thesis
    by (simp del: draw_sierpinski_bounded.simps)
qed

text \<open>
  C3 as stated (a negative depth is a no-op) fails at depth \<open>-1\<close>: the only test is
  \<^verbatim>\<open>depth == 0\<close>, and the call does not return.
\<close>

theorem negative_depth_does_not_return:
  "draw_sierpinski (CHR ''#'') 65 0 0 65 130 65 (- 1) [] = None"
  by (simp add: draw_sierpinski_negative)

text \<open>
  C5, as amended. For a triangle in range and a positive depth the recursive calls are
  on the triangles \<open>(M\<^sub>A\<^sub>B, B, (ax, by))\<close>, \<open>(M\<^sub>A\<^sub>C, (ax, by), C)\<close> and \<open>(A, M\<^sub>A\<^sub>B, M\<^sub>A\<^sub>C)\<close>. The
  coordinates of \<open>M\<^sub>A\<^sub>B\<close> and \<open>M\<^sub>A\<^sub>C\<close> are means under C's truncating division: the floor
  of the mean when the difference the code divides is not negative, its ceiling
  otherwise. The midpoint of B-C is not computed; the point \<open>(ax, by)\<close> stands for it.
\<close>

theorem draw_sierpinski_subdivision:
  "triangle_in_range ax ay bx by' cx cy \<Longrightarrow> 0 < depth \<Longrightarrow> depth \<le> INT_MAX \<Longrightarrow>
   draw_sierpinski c ax ay bx by' cx cy depth s =
     (let mabx = (if bx \<le> ax then floor_mean ax bx else ceil_mean ax bx);
          maby = (if ay \<le> by' then floor_mean by' ay else ceil_mean by' ay);
          macx = (if ax \<le> cx then floor_mean cx ax else ceil_mean cx ax);
          macy = (if ay \<le> cy then floor_mean cy ay else ceil_mean cy ay)
      in do {
        s \<leftarrow> draw_sierpinski c mabx maby bx by' ax by' (depth - 1) s;
        s \<leftarrow> draw_sierpinski c macx macy ax by' cx cy (depth - 1) s;
        s \<leftarrow> draw_sierpinski c ax ay mabx maby macx macy (depth - 1) s;
        s \<leftarrow> draw_line ax ay bx by' c s;
        s \<leftarrow> draw_line bx by' cx cy c s;
        s \<leftarrow> draw_line cx cy ax ay c s;
        Some s
      })"
proof -
  assume r: "triangle_in_range ax ay bx by' cx cy" and d: "0 < depth" "depth \<le> INT_MAX"
  from r obtain xl xh yl yh where sx: "span_ok xl xh" and sy: "span_ok yl yh"
    and b: "in_box xl xh yl yh ax ay" "in_box xl xh yl yh bx by'" "in_box xl xh yl yh cx cy"
    by (rule triangle_in_box)
  from b have c: "xl \<le> ax" "ax \<le> xh" "yl \<le> ay" "ay \<le> yh"
    "xl \<le> bx" "bx \<le> xh" "yl \<le> by'" "by' \<le> yh"
    "xl \<le> cx" "cx \<le> xh" "yl \<le> cy" "cy \<le> yh"
    by (simp_all add: in_box_def)
  note h = half_way_in_span(1)[OF sx c(1,2,5,6)] half_way_in_span(1)[OF sy c(7,8,3,4)]
    half_way_in_span(1)[OF sx c(9,10,1,2)] half_way_in_span(1)[OF sy c(11,12,3,4)]
  have dd: "int_sub depth 1 = Some (depth - 1)" and nz: "depth \<noteq> 0"
    using d by (simp_all add: int_sub_def INT_MIN_MAX)
  show ?thesis
    by (subst draw_sierpinski.simps)
       (simp only: nz if_False h dd bind.bind_lunit c_midpoint Let_def)
qed

text \<open>
  C5, witness: the triangle \<open>(0, 50)\<close>, \<open>(25, 0)\<close>, \<open>(50, 50)\<close> at depth 2.
\<close>

theorem draw_sierpinski_subdivision_witness:
  "triangle_in_range 0 50 25 0 50 50 \<and> (0::int) < 2 \<and> (2::int) \<le> INT_MAX \<and>
   draw_sierpinski (CHR ''#'') 0 50 25 0 50 50 2 [] =
     do {
       s \<leftarrow> draw_sierpinski (CHR ''#'') 13 25 25 0 0 0 (2 - 1) [];
       s \<leftarrow> draw_sierpinski (CHR ''#'') 25 50 0 0 50 50 (2 - 1) s;
       s \<leftarrow> draw_sierpinski (CHR ''#'') 0 50 13 25 25 50 (2 - 1) s;
       s \<leftarrow> draw_line 0 50 25 0 (CHR ''#'') s;
       s \<leftarrow> draw_line 25 0 50 50 (CHR ''#'') s;
       s \<leftarrow> draw_line 50 50 0 50 (CHR ''#'') s;
       Some s
     }"
proof -
  have r: "triangle_in_range 0 50 25 0 50 50" and d: "(0::int) < 2" "(2::int) \<le> INT_MAX"
    by (simp_all add: triangle_in_range_def span_ok_def INT_MAX_def INT_MIN_def)
  from draw_sierpinski_subdivision[OF r d, of "CHR ''#''" "[]"] r d show ?thesis
    by (simp add: floor_mean_def ceil_mean_def)
qed

text \<open>
  C5 as stated (the children are built from the floor midpoints of the three edges)
  fails on the same triangle at depth 2: the first edge drawn is the first edge of the
  first child, and it starts at \<open>(13, 25)\<close>, not at the floor midpoint \<open>(12, 25)\<close> of
  A-B.
\<close>

theorem draw_sierpinski_not_floor_midpoints:
  "map_option hd (draw_sierpinski (CHR ''#'') 0 50 25 0 50 50 2 []) =
     Some (Draw_line 13 25 25 0 (CHR ''#'')) \<and>
   map_option hd (draw_sierpinski (CHR ''#'') 0 50 25 0 50 50 2 []) \<noteq>
     Some (Draw_line (floor_mean 0 25) (floor_mean 50 0) 25 0 (CHR ''#''))"
proof -
  have r: "triangle_in_range 0 50 25 0 50 50" and d: "(0::int) \<le> 2" "(2::int) \<le> INT_MAX"
    by (simp_all add: triangle_in_range_def span_ok_def INT_MAX_def INT_MIN_def)
  show ?thesis
    by (simp add: draw_sierpinski_returns[OF r d] numeral_2_eq_2 line_events_def floor_mean_def)
qed

text \<open>
  C6, as amended. For a triangle in range, a call of depth \<open>d\<close> from 0 to \<open>INT_MAX\<close>
  returns after drawing \<open>3 * (3^d - 1) / 2\<close> edges.
\<close>

theorem draw_sierpinski_edge_count:
  "triangle_in_range ax ay bx by' cx cy \<Longrightarrow> 0 \<le> depth \<Longrightarrow> depth \<le> INT_MAX \<Longrightarrow>
     map_option edges_drawn (draw_sierpinski c ax ay bx by' cx cy depth s) =
     Some (edges_drawn s + 3 * (3 ^ nat depth - 1) div 2)"
  by (simp add: draw_sierpinski_returns edges_drawn_append edges_drawn_sierpinski_trace_eq)

text \<open>
  C6, witness: 12 edges at depth 2, 3 at depth 1, none at depth 0.
\<close>

theorem draw_sierpinski_edge_count_witness:
  "triangle_in_range 0 50 25 0 50 50 \<and> (2::int) \<le> INT_MAX \<and>
   map_option edges_drawn (draw_sierpinski (CHR ''#'') 0 50 25 0 50 50 2 []) = Some 12 \<and>
   map_option edges_drawn (draw_sierpinski (CHR ''#'') 0 50 25 0 50 50 1 []) = Some 3 \<and>
   map_option edges_drawn (draw_sierpinski (CHR ''#'') 0 50 25 0 50 50 0 []) = Some 0"
proof -
  have r: "triangle_in_range 0 50 25 0 50 50"
    and d: "(0::int) \<le> 2" "(2::int) \<le> INT_MAX" "(0::int) \<le> 1" "(1::int) \<le> INT_MAX"
      "(0::int) \<le> 0" "(0::int) \<le> INT_MAX"
    by (simp_all add: triangle_in_range_def span_ok_def INT_MAX_def INT_MIN_def)
  from draw_sierpinski_edge_count[OF r d(1,2), of "CHR ''#''" "[]"]
    draw_sierpinski_edge_count[OF r d(3,4), of "CHR ''#''" "[]"]
    draw_sierpinski_edge_count[OF r d(5,6), of "CHR ''#''" "[]"] r d
  show ?thesis by simp
qed

text \<open>
  C6 as stated (for every triangle) fails for a triangle with a vertex at
  \<open>x = INT_MAX\<close>: at depth 1 the second edge, from \<open>(2147483645, 2)\<close> to
  \<open>(2147483647, 2)\<close>, overflows after its last plot, and the third edge is never drawn.
\<close>

theorem draw_sierpinski_edge_overflow:
  "map_option edges_drawn
     (draw_sierpinski (CHR ''#'') 2147483646 0 2147483645 2 2147483647 2 1 []) = None"
  by (subst draw_sierpinski.simps)
     (simp add: draw_sierpinski_zero half_way_def draw_line_def mvaddch_def
        loop_yinc_xdec.simps loop_xinc_yinc.simps
        int_add_def int_sub_def INT_MAX_def INT_MIN_def signed_divide_int_def)

text \<open>
  C8, as amended. For a triangle in range and a depth from 0 to \<open>INT_MAX - 1\<close>, one more
  level of depth plots strictly more cells.
\<close>

theorem draw_sierpinski_more_plots:
  "triangle_in_range ax ay bx by' cx cy \<Longrightarrow> 0 \<le> depth \<Longrightarrow> depth < INT_MAX \<Longrightarrow>
     \<exists>n1 n2. map_option plot_calls (draw_sierpinski c ax ay bx by' cx cy depth s) = Some n1 \<and>
       map_option plot_calls (draw_sierpinski c ax ay bx by' cx cy (depth + 1) s) = Some n2 \<and>
       n1 < n2"
  using plot_calls_sierpinski_trace_mono[of c ax ay bx by' cx cy "nat depth"]
  by (simp add: draw_sierpinski_returns plot_calls_append nat_add_distrib
           del: sierpinski_trace.simps)

text \<open>
  C8, witness: depth 1 against depth 2.
\<close>

theorem draw_sierpinski_more_plots_witness:
  "triangle_in_range 0 50 25 0 50 50 \<and> (0::int) \<le> 1 \<and> (1::int) < INT_MAX \<and>
   (\<exists>n1 n2. map_option plot_calls (draw_sierpinski (CHR ''#'') 0 50 25 0 50 50 1 []) = Some n1 \<and>
      map_option plot_calls (draw_sierpinski (CHR ''#'') 0 50 25 0 50 50 (1 + 1) []) = Some n2 \<and>
      n1 < n2)"
proof -
  have r: "triangle_in_range 0 50 25 0 50 50" and d: "(0::int) \<le> 1" "(1::int) < INT_MAX"
    by (simp_all add: triangle_in_range_def span_ok_def INT_MAX_def INT_MIN_def)
  from draw_sierpinski_more_plots[OF r d, of "CHR ''#''" "[]"] r d show ?thesis by blast
qed

text \<open>
  C8 as stated (for every triangle) fails for a triangle with a vertex at
  \<open>x = INT_MIN\<close>: depth 0 plots nothing and returns, depth 1 overflows in its first edge,
  from \<open>(-2147483646, 0)\<close> to \<open>(-2147483648, 0)\<close>, and has no plot count.
\<close>

theorem draw_sierpinski_plots_overflow:
  "map_option plot_calls
     (draw_sierpinski (CHR ''#'') (- 2147483646) 0 (- 2147483648) 0 (- 2147483647) 2 0 []) =
     Some 0 \<and>
   map_option plot_calls
     (draw_sierpinski (CHR ''#'') (- 2147483646) 0 (- 2147483648) 0 (- 2147483647) 2 (0 + 1) []) =
     None"
proof -
  have "draw_sierpinski (CHR ''#'') (- 2147483646) 0 (- 2147483648) 0 (- 2147483647) 2 1 [] = None"
    by (subst draw_sierpinski.simps)
       (simp add: draw_sierpinski_zero half_way_def draw_line_def mvaddch_def
          loop_xdec_yinc.simps
          int_add_def int_sub_def INT_MAX_def INT_MIN_def signed_divide_int_def)
  then show ?thesis by (simp add: draw_sierpinski_zero plot_calls_def)
qed

text \<open>
  C9. At depth 0 the call returns the trace unchanged: nothing is plotted.
\<close>

theorem draw_sierpinski_depth_zero:
  "draw_sierpinski c ax ay bx by' cx cy 0 s = Some s \<and>
   map_option (plotted s) (draw_sierpinski c ax ay bx by' cx cy 0 s) = Some []"
  by (subst (1 2) draw_sierpinski.simps) (simp add: plotted_def)

end
